theory Spec2Isabelle
  imports Main "HOL-Library.Word" "HOL-Library.Char_ord" "HOL-Library.List_Lexorder"
begin

unbundle bit_operations_syntax

section \<open>Python values, exceptions and byte strings\<close>

text \<open>
  The pure-Python revlog index (\<^verbatim>\<open>mercurial/pure/parsers.py\<close>), the revlog docket
  (\<^verbatim>\<open>mercurial/revlogutils/docket.py\<close>) and the upgrade engine
  (\<^verbatim>\<open>mercurial/upgrade_utils/engine.py\<close>) are embedded as HOL functions. Python
  integers are \<open>int\<close>, byte strings are lists of 8-bit words, paths and action names are
  \<open>string\<close>s, and every exception the embedded code can raise is a value of \<open>error\<close>,
  returned as \<open>Inl\<close>.
\<close>

type_synonym byte = "8 word"
type_synonym bytes = "byte list"

datatype error =
    StructError
  | AssertionError
  | ValueError
  | IndexError
  | TypeError
  | KeyError
  | RevlogError
  | ProgrammingError
  | AttributeError
  | IOError

text \<open>Python slicing \<^verbatim>\<open>xs[a:b]\<close>: a negative bound counts from the end, and both
  bounds are clamped to the list.\<close>

definition py_slice :: "'a list \<Rightarrow> int \<Rightarrow> int \<Rightarrow> 'a list" where
  "py_slice xs a b =
     (let n = int (length xs);
          lo = (if a < 0 then max (a + n) 0 else min a n);
          hi = (if b < 0 then max (b + n) 0 else min b n)
      in take (nat (hi - lo)) (drop (nat lo) xs))"

text \<open>Python indexing \<^verbatim>\<open>xs[i]\<close>: a negative index counts from the end, an index
  outside the list raises IndexError.\<close>

definition py_index :: "'a list \<Rightarrow> int \<Rightarrow> error + 'a" where
  "py_index xs i =
     (if 0 \<le> i \<and> i < int (length xs) then Inr (xs ! nat i)
      else if i < 0 \<and> - int (length xs) \<le> i then Inr (xs ! nat (int (length xs) + i))
      else Inl IndexError)"

text \<open>Python item assignment \<^verbatim>\<open>xs[i] = v\<close>.\<close>

definition py_setitem :: "'a list \<Rightarrow> int \<Rightarrow> 'a \<Rightarrow> error + 'a list" where
  "py_setitem xs i v =
     (if 0 \<le> i \<and> i < int (length xs) then Inr (xs[nat i := v])
      else if i < 0 \<and> - int (length xs) \<le> i then Inr (xs[nat (int (length xs) + i) := v])
      else Inl IndexError)"

text \<open>\<^verbatim>\<open>bytes.endswith\<close> and \<^verbatim>\<open>bytes.startswith\<close>.\<close>

definition endswith :: "'a list \<Rightarrow> 'a list \<Rightarrow> bool" where
  "endswith s suf \<longleftrightarrow> length suf \<le> length s \<and> drop (length s - length suf) s = suf"

definition startswith :: "'a list \<Rightarrow> 'a list \<Rightarrow> bool" where
  "startswith s pre \<longleftrightarrow> take (length pre) s = pre"

section \<open>The \<^verbatim>\<open>struct\<close> formats\<close>

text \<open>
  Big-endian fields of \<^verbatim>\<open>struct\<close> with the \<^verbatim>\<open>>\<close> prefix (standard sizes, no
  alignment): \<^verbatim>\<open>Q\<close> is 8 bytes unsigned, \<^verbatim>\<open>I\<close> and \<^verbatim>\<open>L\<close> are 4 bytes unsigned,
  \<^verbatim>\<open>i\<close> is 4 bytes two's complement, \<^verbatim>\<open>B\<close> is one unsigned byte, \<^verbatim>\<open>20s\<close> is a
  byte string cut or zero-padded to 20 bytes, \<^verbatim>\<open>c\<close> is a byte string of length 1, and
  \<^verbatim>\<open>x\<close> is a zero pad byte. Packing a value outside the range of its field raises
  \<^verbatim>\<open>struct.error\<close>, and so does unpacking a buffer whose length is not the size of
  the format.
\<close>

fun be_encode :: "nat \<Rightarrow> int \<Rightarrow> bytes" where
  "be_encode 0 v = []"
| "be_encode (Suc n) v = be_encode n (v div 256) @ [word_of_int v]"

definition be_decode :: "bytes \<Rightarrow> int" where
  "be_decode bs = foldl (\<lambda>a b. a * 256 + uint b) 0 bs"

definition be_decode_signed :: "bytes \<Rightarrow> int" where
  "be_decode_signed bs =
     (let u = be_decode bs
      in if 2 ^ (8 * length bs - 1) \<le> u then u - 2 ^ (8 * length bs) else u)"

definition fits_Q :: "int \<Rightarrow> bool" where
  "fits_Q v \<longleftrightarrow> 0 \<le> v \<and> v < 2 ^ 64"

definition fits_L :: "int \<Rightarrow> bool" where
  "fits_L v \<longleftrightarrow> 0 \<le> v \<and> v < 2 ^ 32"

definition fits_i :: "int \<Rightarrow> bool" where
  "fits_i v \<longleftrightarrow> - (2 ^ 31) \<le> v \<and> v < 2 ^ 31"

definition fits_B :: "int \<Rightarrow> bool" where
  "fits_B v \<longleftrightarrow> 0 \<le> v \<and> v < 256"

definition pack_s :: "nat \<Rightarrow> bytes \<Rightarrow> bytes" where
  "pack_s n s = take n s @ replicate (n - length s) 0"

definition pad :: "nat \<Rightarrow> bytes" where
  "pad n = replicate n 0"

text \<open>\<^verbatim>\<open>struct.unpack(b'>i', data)\<close>, used by the inline scans.\<close>

definition unpack_i :: "bytes \<Rightarrow> error + int" where
  "unpack_i data = (if length data \<noteq> 4 then Inl StructError else Inr (be_decode_signed data))"

text \<open>
  Modelled from the spec: \<^verbatim>\<open>revlog_constants.INDEX_ENTRY_V1\<close>
  (\<^verbatim>\<open>revlogutils/constants.py\<close> is not among the sources). The spec gives a 64-byte
  big-endian record: an 8-byte \<^verbatim>\<open>offset_flags\<close>, six 4-byte integers (compressed
  length, uncompressed length, base revision, link revision, the two parents), the
  20-byte node and 12 reserved zero bytes, that is \<^verbatim>\<open>>Qiiiiii20s12x\<close>. The 4-byte
  fields are signed, as \<^verbatim>\<open>_inline_scan\<close> reads the compressed length with
  \<^verbatim>\<open>>i\<close> at offset 8.
\<close>

type_synonym v1_fields = "int \<times> int \<times> int \<times> int \<times> int \<times> int \<times> int \<times> bytes"

definition INDEX_ENTRY_V1_size :: int where
  "INDEX_ENTRY_V1_size = 64"

definition INDEX_ENTRY_V1_pack :: "v1_fields \<Rightarrow> error + bytes" where
  "INDEX_ENTRY_V1_pack t =
     (case t of (f0, f1, f2, f3, f4, f5, f6, f7) \<Rightarrow>
        if fits_Q f0 \<and> fits_i f1 \<and> fits_i f2 \<and> fits_i f3 \<and> fits_i f4 \<and> fits_i f5 \<and> fits_i f6
        then Inr (be_encode 8 f0 @ be_encode 4 f1 @ be_encode 4 f2 @ be_encode 4 f3
                  @ be_encode 4 f4 @ be_encode 4 f5 @ be_encode 4 f6 @ pack_s 20 f7 @ pad 12)
        else Inl StructError)"

definition INDEX_ENTRY_V1_unpack :: "bytes \<Rightarrow> error + v1_fields" where
  "INDEX_ENTRY_V1_unpack data =
     (if int (length data) \<noteq> INDEX_ENTRY_V1_size then Inl StructError
      else Inr (be_decode (take 8 data),
                be_decode_signed (take 4 (drop 8 data)),
                be_decode_signed (take 4 (drop 12 data)),
                be_decode_signed (take 4 (drop 16 data)),
                be_decode_signed (take 4 (drop 20 data)),
                be_decode_signed (take 4 (drop 24 data)),
                be_decode_signed (take 4 (drop 28 data)),
                take 20 (drop 32 data)))"

text \<open>
  Modelled from the spec: \<^verbatim>\<open>revlog_constants.INDEX_ENTRY_V2\<close>. The spec gives a
  96-byte record that adds to the v1 fields an 8-byte sidedata offset, a 4-byte sidedata
  length and one byte with the two compression modes; \<^verbatim>\<open>InlinedIndexObject2\<close> reads
  the sidedata length at byte 72, so the sidedata offset is at byte 64 and the mode byte
  at byte 76, followed by 19 pad bytes: \<^verbatim>\<open>>Qiiiiii20s12xQiB19x\<close>.
\<close>

type_synonym v2_fields =
  "int \<times> int \<times> int \<times> int \<times> int \<times> int \<times> int \<times> bytes \<times> int \<times> int \<times> int"

definition INDEX_ENTRY_V2_size :: int where
  "INDEX_ENTRY_V2_size = 96"

definition INDEX_ENTRY_V2_pack :: "v2_fields \<Rightarrow> error + bytes" where
  "INDEX_ENTRY_V2_pack t =
     (case t of (f0, f1, f2, f3, f4, f5, f6, f7, f8, f9, f10) \<Rightarrow>
        if fits_Q f0 \<and> fits_i f1 \<and> fits_i f2 \<and> fits_i f3 \<and> fits_i f4 \<and> fits_i f5 \<and> fits_i f6
           \<and> fits_Q f8 \<and> fits_i f9 \<and> fits_B f10
        then Inr (be_encode 8 f0 @ be_encode 4 f1 @ be_encode 4 f2 @ be_encode 4 f3
                  @ be_encode 4 f4 @ be_encode 4 f5 @ be_encode 4 f6 @ pack_s 20 f7 @ pad 12
                  @ be_encode 8 f8 @ be_encode 4 f9 @ be_encode 1 f10 @ pad 19)
        else Inl StructError)"

definition INDEX_ENTRY_V2_unpack :: "bytes \<Rightarrow> error + v2_fields" where
  "INDEX_ENTRY_V2_unpack data =
     (if int (length data) \<noteq> INDEX_ENTRY_V2_size then Inl StructError
      else Inr (be_decode (take 8 data),
                be_decode_signed (take 4 (drop 8 data)),
                be_decode_signed (take 4 (drop 12 data)),
                be_decode_signed (take 4 (drop 16 data)),
                be_decode_signed (take 4 (drop 20 data)),
                be_decode_signed (take 4 (drop 24 data)),
                be_decode_signed (take 4 (drop 28 data)),
                take 20 (drop 32 data),
                be_decode (take 8 (drop 64 data)),
                be_decode_signed (take 4 (drop 72 data)),
                be_decode (take 1 (drop 76 data))))"

section \<open>Index entries\<close>

text \<open>
  An index entry is the 12-tuple of \<^verbatim>\<open>parsers.py\<close>: positions 0 to 7 are the v1
  fields, 8 and 9 the sidedata offset and length, 10 and 11 the compression modes of the
  data and of the sidedata.
\<close>

record entry =
  offset_flags :: int
  comp_len :: int
  uncomp_len :: int
  base_rev :: int
  link_rev :: int
  p1_rev :: int
  p2_rev :: int
  node :: bytes
  sidedata_offset :: int
  sidedata_length :: int
  data_comp_mode :: int
  sidedata_comp_mode :: int

text \<open>
  Modelled from the spec: the constants of \<^verbatim>\<open>node.py\<close> and
  \<^verbatim>\<open>revlogutils/constants.py\<close>, which are not among the sources. The null node is
  the all-zero 20-byte value and the null revision is \<open>-1\<close>. The spec names the
  compression mode \<^verbatim>\<open>inline\<close> without its number; no theorem below depends on it.
\<close>

definition nullid :: bytes where
  "nullid = replicate 20 0"

definition nullrev :: int where
  "nullrev = - 1"

definition COMP_MODE_INLINE :: int where
  "COMP_MODE_INLINE = 2"

definition gettype :: "int \<Rightarrow> int" where
  "gettype q = q AND 0xFFFF"

definition offset_type :: "int \<Rightarrow> int \<Rightarrow> int" where
  "offset_type offset type = push_bit 16 offset OR type"

definition null_item :: entry where
  "null_item = \<lparr> offset_flags = 0, comp_len = 0, uncomp_len = 0, base_rev = - 1,
                 link_rev = - 1, p1_rev = - 1, p2_rev = - 1, node = nullid,
                 sidedata_offset = 0, sidedata_length = 0,
                 data_comp_mode = COMP_MODE_INLINE, sidedata_comp_mode = COMP_MODE_INLINE \<rparr>"

datatype version = V1 | V2

definition entry_size :: "version \<Rightarrow> int" where
  "entry_size v = (case v of V1 \<Rightarrow> INDEX_ENTRY_V1_size | V2 \<Rightarrow> INDEX_ENTRY_V2_size)"

text \<open>\<^verbatim>\<open>BaseIndexObject._pack_entry\<close> and \<^verbatim>\<open>BaseIndexObject._unpack_entry\<close>.\<close>

definition pack_entry_v1 :: "entry \<Rightarrow> error + bytes" where
  "pack_entry_v1 e =
     (if sidedata_offset e \<noteq> 0 then Inl AssertionError
      else if sidedata_length e \<noteq> 0 then Inl AssertionError
      else INDEX_ENTRY_V1_pack (offset_flags e, comp_len e, uncomp_len e, base_rev e,
             link_rev e, p1_rev e, p2_rev e, node e))"

definition unpack_entry_v1 :: "bytes \<Rightarrow> error + entry" where
  "unpack_entry_v1 data =
     (case INDEX_ENTRY_V1_unpack data of
        Inl err \<Rightarrow> Inl err
      | Inr (f0, f1, f2, f3, f4, f5, f6, f7) \<Rightarrow>
          Inr \<lparr> offset_flags = f0, comp_len = f1, uncomp_len = f2, base_rev = f3,
                link_rev = f4, p1_rev = f5, p2_rev = f6, node = f7,
                sidedata_offset = 0, sidedata_length = 0,
                data_comp_mode = COMP_MODE_INLINE, sidedata_comp_mode = COMP_MODE_INLINE \<rparr>)"

text \<open>\<^verbatim>\<open>Index2Mixin._pack_entry\<close> and \<^verbatim>\<open>Index2Mixin._unpack_entry\<close>.\<close>

definition pack_entry_v2 :: "entry \<Rightarrow> error + bytes" where
  "pack_entry_v2 e =
     (let data_comp = data_comp_mode e AND 3;
          sidedata_comp = push_bit 2 (sidedata_comp_mode e AND 3)
      in INDEX_ENTRY_V2_pack (offset_flags e, comp_len e, uncomp_len e, base_rev e,
           link_rev e, p1_rev e, p2_rev e, node e, sidedata_offset e, sidedata_length e,
           data_comp OR sidedata_comp))"

definition unpack_entry_v2 :: "bytes \<Rightarrow> error + entry" where
  "unpack_entry_v2 data =
     (case INDEX_ENTRY_V2_unpack data of
        Inl err \<Rightarrow> Inl err
      | Inr (f0, f1, f2, f3, f4, f5, f6, f7, f8, f9, f10) \<Rightarrow>
          (let data_comp = f10 AND 3;
               sidedata_comp = drop_bit 2 (f10 AND (push_bit 2 3))
           in Inr \<lparr> offset_flags = f0, comp_len = f1, uncomp_len = f2, base_rev = f3,
                    link_rev = f4, p1_rev = f5, p2_rev = f6, node = f7,
                    sidedata_offset = f8, sidedata_length = f9,
                    data_comp_mode = data_comp, sidedata_comp_mode = sidedata_comp \<rparr>))"

definition pack_entry :: "version \<Rightarrow> entry \<Rightarrow> error + bytes" where
  "pack_entry v e = (case v of V1 \<Rightarrow> pack_entry_v1 e | V2 \<Rightarrow> pack_entry_v2 e)"

definition unpack_entry :: "version \<Rightarrow> bytes \<Rightarrow> error + entry" where
  "unpack_entry v data = (case v of V1 \<Rightarrow> unpack_entry_v1 data | V2 \<Rightarrow> unpack_entry_v2 data)"

text \<open>
  \<open>entry_fits\<close>: every integer field of the entry is in the range of its field of the
  record format, so that \<^verbatim>\<open>struct.pack\<close> accepts it. \<open>roundtrip\<close>: decoding the
  bytes that encoding the entry produced.
\<close>

definition entry_fits :: "version \<Rightarrow> entry \<Rightarrow> bool" where
  "entry_fits v e \<longleftrightarrow>
     fits_Q (offset_flags e) \<and> fits_i (comp_len e) \<and> fits_i (uncomp_len e)
     \<and> fits_i (base_rev e) \<and> fits_i (link_rev e) \<and> fits_i (p1_rev e) \<and> fits_i (p2_rev e)
     \<and> (v = V2 \<longrightarrow> fits_Q (sidedata_offset e) \<and> fits_i (sidedata_length e))"

definition roundtrip :: "version \<Rightarrow> entry \<Rightarrow> error + entry" where
  "roundtrip v e =
     (case pack_entry v e of Inl err \<Rightarrow> Inl err | Inr data \<Rightarrow> unpack_entry v data)"

section \<open>The index objects\<close>

text \<open>
  One record holds the attributes of the four index classes. \<open>ix_version\<close> and
  \<open>ix_inlined\<close> select the class: \<^verbatim>\<open>IndexObject\<close> (v1, split),
  \<^verbatim>\<open>InlinedIndexObject\<close> (v1, inline), \<^verbatim>\<open>IndexObject2\<close> and
  \<^verbatim>\<open>InlinedIndexObject2\<close> (v2). \<open>ix_data\<close>, \<open>ix_lgt\<close>, \<open>ix_extra\<close> and
  \<open>ix_offsets\<close> are \<^verbatim>\<open>_data\<close>, \<^verbatim>\<open>_lgt\<close>, \<^verbatim>\<open>_extra\<close> and \<^verbatim>\<open>_offsets\<close>;
  \<open>ix_nodemap\<close> is the property cache \<^verbatim>\<open>_nodemap\<close>, \<open>None\<close> while
  \<^verbatim>\<open>'_nodemap'\<close> is not in \<^verbatim>\<open>vars(self)\<close>. An operation that raises returns
  \<open>Inl\<close> and the state it left behind is not tracked.
\<close>

record index =
  ix_version :: version
  ix_inlined :: bool
  ix_data :: bytes
  ix_lgt :: int
  ix_extra :: "bytes list"
  ix_offsets :: "int list"
  ix_nodemap :: "(bytes \<rightharpoonup> int) option"

text \<open>\<^verbatim>\<open>BaseIndexObject.__len__\<close>\<close>

definition index_len :: "index \<Rightarrow> int" where
  "index_len ix = ix_lgt ix + int (length (ix_extra ix))"

text \<open>\<^verbatim>\<open>BaseIndexObject._check_index\<close>; the argument is an integer by its type.\<close>

definition check_index :: "index \<Rightarrow> int \<Rightarrow> error + unit" where
  "check_index ix i = (if i < 0 \<or> i \<ge> index_len ix then Inl IndexError else Inr ())"

text \<open>\<^verbatim>\<open>IndexObject._calculate_index\<close> and \<^verbatim>\<open>InlinedIndexObject._calculate_index\<close>\<close>

definition calculate_index :: "index \<Rightarrow> int \<Rightarrow> error + int" where
  "calculate_index ix i =
     (if ix_inlined ix then py_index (ix_offsets ix) i
      else Inr (i * entry_size (ix_version ix)))"

text \<open>The bytes that \<^verbatim>\<open>__getitem__\<close> hands to \<^verbatim>\<open>_unpack_entry\<close> for a checked
  index \<open>i\<close>: the in-memory record of an appended revision, or a slice of the data.\<close>

definition entry_data :: "index \<Rightarrow> int \<Rightarrow> error + bytes" where
  "entry_data ix i =
     (if i \<ge> ix_lgt ix then py_index (ix_extra ix) (i - ix_lgt ix)
      else (case calculate_index ix i of
              Inl err \<Rightarrow> Inl err
            | Inr index \<Rightarrow>
                Inr (py_slice (ix_data ix) index (index + entry_size (ix_version ix)))))"

text \<open>\<^verbatim>\<open>BaseIndexObject.__getitem__\<close>\<close>

definition getitem :: "index \<Rightarrow> int \<Rightarrow> error + entry" where
  "getitem ix i =
     (if i = - 1 then Inr null_item
      else (case check_index ix i of
              Inl err \<Rightarrow> Inl err
            | Inr _ \<Rightarrow>
               (case entry_data ix i of
                  Inl err \<Rightarrow> Inl err
                | Inr data \<Rightarrow>
                   (case unpack_entry (ix_version ix) data of
                      Inl err \<Rightarrow> Inl err
                    | Inr r \<Rightarrow>
                        if ix_lgt ix \<noteq> 0 \<and> i = 0
                        then Inr (r\<lparr>offset_flags := offset_type 0 (gettype (offset_flags r))\<rparr>)
                        else Inr r))))"

text \<open>\<^verbatim>\<open>IndexObject.__init__\<close>\<close>

definition IndexObject_init :: "version \<Rightarrow> bytes \<Rightarrow> error + index" where
  "IndexObject_init v data =
     (if int (length data) mod entry_size v \<noteq> 0 then Inl AssertionError
      else Inr \<lparr> ix_version = v, ix_inlined = False, ix_data = data,
                 ix_lgt = int (length data) div entry_size v, ix_extra = [],
                 ix_offsets = [], ix_nodemap = None \<rparr>)"

subsection \<open>The inline scan\<close>

text \<open>
  What one round of the loop of \<^verbatim>\<open>_inline_scan\<close> reads at offset \<open>off\<close>: the
  compressed length at \<open>off + 8\<close> (\<^verbatim>\<open>InlinedIndexObject\<close>), or the compressed length
  plus the sidedata length at \<open>off + 72\<close> (\<^verbatim>\<open>InlinedIndexObject2\<close>). Each is read
  with \<^verbatim>\<open>struct.unpack(b'>i', ...)\<close> from a slice of the data.
\<close>

definition inline_scan_sizes :: "version \<Rightarrow> bytes \<Rightarrow> int \<Rightarrow> error + int" where
  "inline_scan_sizes v data off =
     (case v of
        V1 \<Rightarrow> (let start = off + 8 in unpack_i (py_slice data start (start + 4)))
      | V2 \<Rightarrow>
          (let start = off + 8 in
           case unpack_i (py_slice data start (start + 4)) of
             Inl err \<Rightarrow> Inl err
           | Inr data_size \<Rightarrow>
               (let start = off + 72 in
                case unpack_i (py_slice data start (start + 4)) of
                  Inl err \<Rightarrow> Inl err
                | Inr side_data_size \<Rightarrow> Inr (data_size + side_data_size))))"

text \<open>
  The \<^verbatim>\<open>while\<close> loop of \<^verbatim>\<open>_inline_scan\<close> may run forever, so it takes fuel: one
  unit per evaluation of the loop condition, and \<open>None\<close> when the fuel runs out before
  the loop is left. \<open>offsets\<close> is \<open>None\<close> when \<^verbatim>\<open>lgt is None\<close> and the list
  \<^verbatim>\<open>self._offsets\<close> otherwise; the result is the returned count with the final
  \<^verbatim>\<open>_offsets\<close>.
\<close>

fun inline_scan_loop ::
  "nat \<Rightarrow> version \<Rightarrow> bytes \<Rightarrow> int list option \<Rightarrow> int \<Rightarrow> int
   \<Rightarrow> (error + int \<times> int list option) option" where
  "inline_scan_loop 0 v data offsets off count = None"
| "inline_scan_loop (Suc fuel) v data offsets off count =
     (if off \<le> int (length data) - entry_size v then
        (case inline_scan_sizes v data off of
           Inl err \<Rightarrow> Some (Inl err)
         | Inr s \<Rightarrow>
            (case offsets of
               None \<Rightarrow>
                 inline_scan_loop fuel v data None (off + (entry_size v + s)) (count + 1)
             | Some os \<Rightarrow>
                (case py_setitem os count off of
                   Inl err \<Rightarrow> Some (Inl err)
                 | Inr os' \<Rightarrow>
                     inline_scan_loop fuel v data (Some os') (off + (entry_size v + s))
                       (count + 1))))
      else if off \<noteq> int (length data) then Some (Inl ValueError)
      else Some (Inr (count, offsets)))"

definition inline_scan ::
  "nat \<Rightarrow> version \<Rightarrow> bytes \<Rightarrow> int option \<Rightarrow> (error + int \<times> int list option) option" where
  "inline_scan fuel v data lgt =
     inline_scan_loop fuel v data (map_option (\<lambda>n. replicate (nat n) 0) lgt) 0 0"

text \<open>\<^verbatim>\<open>InlinedIndexObject.__init__\<close>: a first scan counts the entries, a second one
  fills \<^verbatim>\<open>_offsets\<close>.\<close>

definition InlinedIndexObject_init :: "nat \<Rightarrow> version \<Rightarrow> bytes \<Rightarrow> (error + index) option" where
  "InlinedIndexObject_init fuel v data =
     (case inline_scan fuel v data None of
        None \<Rightarrow> None
      | Some (Inl err) \<Rightarrow> Some (Inl err)
      | Some (Inr (lgt, _)) \<Rightarrow>
         (case inline_scan fuel v data (Some lgt) of
            None \<Rightarrow> None
          | Some (Inl err) \<Rightarrow> Some (Inl err)
          | Some (Inr (_, offsets)) \<Rightarrow>
              Some (Inr \<lparr> ix_version = v, ix_inlined = True, ix_data = data, ix_lgt = lgt,
                          ix_extra = [],
                          ix_offsets = (case offsets of None \<Rightarrow> [] | Some os \<Rightarrow> os),
                          ix_nodemap = None \<rparr>)))"

subsection \<open>The node map\<close>

text \<open>
  Modelled from the spec: \<^verbatim>\<open>nodemaputil.NodeMap\<close> (\<^verbatim>\<open>revlogutils/nodemap.py\<close> is
  not among the sources), a dictionary from nodes to revisions. By the docstrings of
  \<^verbatim>\<open>rev\<close> and \<^verbatim>\<open>get_rev\<close>, subscripting it with an unknown node raises a
  RevlogError and \<^verbatim>\<open>get\<close> returns \<^verbatim>\<open>None\<close>; deleting an absent key raises
  KeyError, as for every dictionary.
\<close>

type_synonym nodemap = "bytes \<rightharpoonup> int"

text \<open>\<^verbatim>\<open>range(a, b)\<close>\<close>

definition py_range :: "int \<Rightarrow> int \<Rightarrow> int list" where
  "py_range a b = map (\<lambda>k. a + int k) [0 ..< nat (b - a)]"

text \<open>The loop of the property \<^verbatim>\<open>_nodemap\<close> over \<^verbatim>\<open>range(0, len(self))\<close>.\<close>

fun nodemap_loop :: "index \<Rightarrow> int list \<Rightarrow> nodemap \<Rightarrow> error + nodemap" where
  "nodemap_loop ix [] nm = Inr nm"
| "nodemap_loop ix (r # rs) nm =
     (case getitem ix r of
        Inl err \<Rightarrow> Inl err
      | Inr e \<Rightarrow> nodemap_loop ix rs (nm(node e \<mapsto> r)))"

definition compute_nodemap :: "index \<Rightarrow> error + nodemap" where
  "compute_nodemap ix = nodemap_loop ix (py_range 0 (index_len ix)) [nullid \<mapsto> nullrev]"

text \<open>Reading \<^verbatim>\<open>self._nodemap\<close>: the cached map, or the computed one, which is
  then cached.\<close>

definition get_nodemap :: "index \<Rightarrow> error + nodemap \<times> index" where
  "get_nodemap ix =
     (case ix_nodemap ix of
        Some nm \<Rightarrow> Inr (nm, ix)
      | None \<Rightarrow>
         (case compute_nodemap ix of
            Inl err \<Rightarrow> Inl err
          | Inr nm \<Rightarrow> Inr (nm, ix\<lparr>ix_nodemap := Some nm\<rparr>)))"

text \<open>\<^verbatim>\<open>has_node\<close>, \<^verbatim>\<open>rev\<close> and \<^verbatim>\<open>get_rev\<close>; each returns its result with the
  index, whose cache the call may have filled.\<close>

definition has_node :: "index \<Rightarrow> bytes \<Rightarrow> error + bool \<times> index" where
  "has_node ix n =
     (case get_nodemap ix of
        Inl err \<Rightarrow> Inl err
      | Inr (nm, ix') \<Rightarrow> Inr (nm n \<noteq> None, ix'))"

definition rev_of :: "index \<Rightarrow> bytes \<Rightarrow> error + int \<times> index" where
  "rev_of ix n =
     (case get_nodemap ix of
        Inl err \<Rightarrow> Inl err
      | Inr (nm, ix') \<Rightarrow> (case nm n of None \<Rightarrow> Inl RevlogError | Some r \<Rightarrow> Inr (r, ix')))"

definition get_rev :: "index \<Rightarrow> bytes \<Rightarrow> error + int option \<times> index" where
  "get_rev ix n =
     (case get_nodemap ix of
        Inl err \<Rightarrow> Inl err
      | Inr (nm, ix') \<Rightarrow> Inr (nm n, ix'))"

text \<open>\<^verbatim>\<open>BaseIndexObject.clearcaches\<close>\<close>

definition clearcaches :: "index \<Rightarrow> index" where
  "clearcaches ix = ix\<lparr>ix_nodemap := None\<rparr>"

text \<open>\<^verbatim>\<open>BaseIndexObject.append\<close>\<close>

definition index_append :: "index \<Rightarrow> entry \<Rightarrow> error + index" where
  "index_append ix tup =
     (let nm' = (case ix_nodemap ix of
                   None \<Rightarrow> None
                 | Some nm \<Rightarrow> Some (nm(node tup \<mapsto> index_len ix)))
      in case pack_entry (ix_version ix) tup of
           Inl err \<Rightarrow> Inl err
         | Inr data \<Rightarrow> Inr (ix\<lparr>ix_nodemap := nm', ix_extra := ix_extra ix @ [data]\<rparr>))"

text \<open>\<^verbatim>\<open>BaseIndexObject._stripnodes\<close>: its loop over
  \<^verbatim>\<open>range(start, len(self))\<close>, then the method.\<close>

fun stripnodes_loop :: "index \<Rightarrow> int list \<Rightarrow> nodemap \<Rightarrow> error + nodemap" where
  "stripnodes_loop ix [] nm = Inr nm"
| "stripnodes_loop ix (r # rs) nm =
     (case getitem ix r of
        Inl err \<Rightarrow> Inl err
      | Inr e \<Rightarrow>
         (case nm (node e) of
            None \<Rightarrow> Inl KeyError
          | Some _ \<Rightarrow> stripnodes_loop ix rs (nm(node e := None))))"

definition stripnodes :: "index \<Rightarrow> int \<Rightarrow> error + index" where
  "stripnodes ix start =
     (case ix_nodemap ix of
        None \<Rightarrow> Inr ix
      | Some nm \<Rightarrow>
         (case stripnodes_loop ix (py_range start (index_len ix)) nm of
            Inl err \<Rightarrow> Inl err
          | Inr nm' \<Rightarrow> Inr (ix\<lparr>ix_nodemap := Some nm'\<rparr>)))"

text \<open>
  The argument of \<^verbatim>\<open>__delitem__\<close>: an integer, or a slice whose \<^verbatim>\<open>start\<close>,
  \<^verbatim>\<open>stop\<close> and \<^verbatim>\<open>step\<close> are integers or \<^verbatim>\<open>None\<close>.
\<close>

datatype key = IntKey int | SliceKey "int option" "int option" "int option"

text \<open>\<^verbatim>\<open>IndexObject.__delitem__\<close> and \<^verbatim>\<open>InlinedIndexObject.__delitem__\<close>; a
  \<^verbatim>\<open>start\<close> of \<^verbatim>\<open>None\<close> is refused by \<^verbatim>\<open>_check_index\<close> with a TypeError.\<close>

definition delitem :: "index \<Rightarrow> key \<Rightarrow> error + index" where
  "delitem ix k =
     (case k of
        IntKey _ \<Rightarrow> Inl ValueError
      | SliceKey start stop step \<Rightarrow>
          if stop \<noteq> Some (- 1) \<or> step \<noteq> None then Inl ValueError
          else (case start of
                  None \<Rightarrow> Inl TypeError
                | Some i \<Rightarrow>
                   (case check_index ix i of
                      Inl err \<Rightarrow> Inl err
                    | Inr _ \<Rightarrow>
                       (case stripnodes ix i of
                          Inl err \<Rightarrow> Inl err
                        | Inr ix' \<Rightarrow>
                            if i < ix_lgt ix' then
                              (if ix_inlined ix'
                               then Inr (ix'\<lparr>ix_offsets := py_slice (ix_offsets ix') 0 i,
                                            ix_lgt := i, ix_extra := []\<rparr>)
                               else Inr (ix'\<lparr>ix_data := py_slice (ix_data ix') 0
                                                         (i * entry_size (ix_version ix')),
                                            ix_lgt := i, ix_extra := []\<rparr>))
                            else Inr (ix'\<lparr>ix_extra :=
                                         py_slice (ix_extra ix') 0 (i - ix_lgt ix')\<rparr>)))))"

text \<open>\<^verbatim>\<open>Index2Mixin.replace_sidedata_info\<close>; the method exists on the v2 classes
  only.\<close>

definition replace_sidedata_info :: "index \<Rightarrow> int \<Rightarrow> int \<Rightarrow> int \<Rightarrow> int \<Rightarrow> error + index" where
  "replace_sidedata_info ix r sd_offset sd_length off_flags =
     (if ix_version ix \<noteq> V2 then Inl AttributeError
      else if r < 0 then Inl KeyError
      else (case check_index ix r of
              Inl err \<Rightarrow> Inl err
            | Inr _ \<Rightarrow>
                if r < ix_lgt ix then Inl KeyError
                else (case getitem ix r of
                        Inl err \<Rightarrow> Inl err
                      | Inr entry \<Rightarrow>
                         (case pack_entry_v2 (entry\<lparr>offset_flags := off_flags,
                                  sidedata_offset := sd_offset,
                                  sidedata_length := sd_length\<rparr>) of
                            Inl err \<Rightarrow> Inl err
                          | Inr new \<Rightarrow>
                             (case py_setitem (ix_extra ix) (r - ix_lgt ix) new of
                                Inl err \<Rightarrow> Inl err
                              | Inr extra' \<Rightarrow> Inr (ix\<lparr>ix_extra := extra'\<rparr>))))))"

section \<open>The revlog docket\<close>

text \<open>
  The attributes of \<^verbatim>\<open>RevlogDocket\<close>. \<^verbatim>\<open>version_header\<close>, the two uuids and
  \<^verbatim>\<open>default_compression_header\<close> default to \<^verbatim>\<open>None\<close>. The opener and the
  transaction are outside the object: \<open>store_state\<close> holds the files of the store and
  the backups registered with the transaction.
\<close>

record docket =
  d_version_header :: "int option"
  d_read_only :: bool
  d_dirty :: bool
  d_radix :: string
  d_path :: string
  d_index_uuid :: "bytes option"
  d_data_uuid :: "bytes option"
  d_initial_index_end :: int
  d_pending_index_end :: int
  d_initial_data_end :: int
  d_pending_data_end :: int
  d_index_end :: int
  d_data_end :: int
  d_default_compression_header :: "bytes option"

record store_state =
  st_backups :: "(string \<times> string) list"
  st_files :: "string \<rightharpoonup> bytes"

text \<open>\<^verbatim>\<open>RevlogDocket.__init__\<close>; the revlog argument gives \<^verbatim>\<open>radix\<close> and
  \<^verbatim>\<open>_docket_file\<close>.\<close>

definition RevlogDocket_init ::
  "string \<times> string \<Rightarrow> bool \<Rightarrow> int option \<Rightarrow> bytes option \<Rightarrow> bytes option
   \<Rightarrow> int \<Rightarrow> int \<Rightarrow> int \<Rightarrow> int \<Rightarrow> bytes option \<Rightarrow> error + docket" where
  "RevlogDocket_init revlog use_pending version_header index_uuid data_uuid
     index_end pending_index_end data_end pending_data_end default_compression_header =
     (if \<not> index_end \<le> pending_index_end then Inl AssertionError
      else if \<not> data_end \<le> pending_data_end then Inl AssertionError
      else Inr \<lparr> d_version_header = version_header,
                 d_read_only = use_pending,
                 d_dirty = False,
                 d_radix = fst revlog,
                 d_path = snd revlog,
                 d_index_uuid = index_uuid,
                 d_data_uuid = data_uuid,
                 d_initial_index_end = index_end,
                 d_pending_index_end = pending_index_end,
                 d_initial_data_end = data_end,
                 d_pending_data_end = pending_data_end,
                 d_index_end = (if use_pending then pending_index_end else index_end),
                 d_data_end = (if use_pending then pending_data_end else data_end),
                 d_default_compression_header = default_compression_header \<rparr>)"

text \<open>The setters of \<^verbatim>\<open>index_end\<close> and \<^verbatim>\<open>data_end\<close>.\<close>

definition set_index_end :: "docket \<Rightarrow> int \<Rightarrow> docket" where
  "set_index_end d new_size =
     (if new_size \<noteq> d_index_end d then d\<lparr>d_index_end := new_size, d_dirty := True\<rparr> else d)"

definition set_data_end :: "docket \<Rightarrow> int \<Rightarrow> docket" where
  "set_data_end d new_size =
     (if new_size \<noteq> d_data_end d then d\<lparr>d_data_end := new_size, d_dirty := True\<rparr> else d)"

text \<open>
  Modelled from the spec: \<^verbatim>\<open>constants.INDEX_HEADER\<close>, the 4-byte big-endian
  version header \<^verbatim>\<open>>I\<close> (\<^verbatim>\<open>revlogutils/constants.py\<close> is not among the
  sources). With it,
  \<^verbatim>\<open>S_HEADER = struct.Struct(constants.INDEX_HEADER.format + 'BBLLLLc')\<close> is
  \<^verbatim>\<open>>IBBLLLLc\<close>: under the \<^verbatim>\<open>>\<close> prefix \<^verbatim>\<open>struct\<close> uses standard
  sizes, so each \<^verbatim>\<open>L\<close> is 4 bytes and the header has 23 bytes. A \<^verbatim>\<open>None\<close>
  where a number or a byte is required raises \<^verbatim>\<open>struct.error\<close>.
\<close>

type_synonym header_fields =
  "int option \<times> int \<times> int \<times> int \<times> int \<times> int \<times> int \<times> bytes option"

definition S_HEADER_size :: int where
  "S_HEADER_size = 23"

definition S_HEADER_pack :: "header_fields \<Rightarrow> error + bytes" where
  "S_HEADER_pack t =
     (case t of (h0, h1, h2, h3, h4, h5, h6, h7) \<Rightarrow>
        (case h0 of
           None \<Rightarrow> Inl StructError
         | Some vh \<Rightarrow>
            (case h7 of
               None \<Rightarrow> Inl StructError
             | Some c \<Rightarrow>
                 if fits_L vh \<and> fits_B h1 \<and> fits_B h2 \<and> fits_L h3 \<and> fits_L h4 \<and> fits_L h5
                    \<and> fits_L h6 \<and> length c = 1
                 then Inr (be_encode 4 vh @ be_encode 1 h1 @ be_encode 1 h2 @ be_encode 4 h3
                           @ be_encode 4 h4 @ be_encode 4 h5 @ be_encode 4 h6 @ c)
                 else Inl StructError)))"

definition S_HEADER_unpack :: "bytes \<Rightarrow> error + header_fields" where
  "S_HEADER_unpack data =
     (if int (length data) \<noteq> S_HEADER_size then Inl StructError
      else Inr (Some (be_decode (take 4 data)),
                be_decode (take 1 (drop 4 data)),
                be_decode (take 1 (drop 5 data)),
                be_decode (take 4 (drop 6 data)),
                be_decode (take 4 (drop 10 data)),
                be_decode (take 4 (drop 14 data)),
                be_decode (take 4 (drop 18 data)),
                Some (take 1 (drop 22 data))))"

text \<open>\<^verbatim>\<open>RevlogDocket._serialize\<close>; \<^verbatim>\<open>len(None)\<close> raises a TypeError.\<close>

definition serialize :: "docket \<Rightarrow> bool \<Rightarrow> error + bytes" where
  "serialize d pending =
     (let official_index_end = (if pending then d_initial_index_end d else d_index_end d);
          official_data_end = (if pending then d_initial_data_end d else d_data_end d)
      in if \<not> official_data_end \<le> d_data_end d then Inl AssertionError
         else (case d_index_uuid d of
                 None \<Rightarrow> Inl TypeError
               | Some index_uuid \<Rightarrow>
                  (case d_data_uuid d of
                     None \<Rightarrow> Inl TypeError
                   | Some data_uuid \<Rightarrow>
                      (case S_HEADER_pack (d_version_header d, int (length index_uuid),
                              int (length data_uuid), official_index_end, d_index_end d,
                              official_data_end, d_data_end d,
                              d_default_compression_header d) of
                         Inl err \<Rightarrow> Inl err
                       | Inr header \<Rightarrow> Inr (header @ index_uuid @ data_uuid)))))"


text \<open>
  \<^verbatim>\<open>RevlogDocket.write\<close>. \<^verbatim>\<open>transaction.addbackup(path, location=b'store')\<close>
  records the backup; the opener with \<^verbatim>\<open>atomictemp=True\<close> replaces the whole file
  when the \<^verbatim>\<open>with\<close> block is left without an exception.
\<close>

definition addbackup :: "store_state \<Rightarrow> string \<Rightarrow> string \<Rightarrow> store_state" where
  "addbackup st path location = st\<lparr>st_backups := st_backups st @ [(path, location)]\<rparr>"

definition docket_write ::
  "docket \<Rightarrow> store_state \<Rightarrow> bool \<Rightarrow> bool \<Rightarrow> error + bool \<times> docket \<times> store_state" where
  "docket_write d st pending stripping =
     (if \<not> d_dirty d then Inr (False, d, st)
      else if d_read_only d then Inl ProgrammingError
      else (let st1 = (if \<not> stripping then addbackup st (d_path d) ''store'' else st)
            in case serialize d pending of
                 Inl err \<Rightarrow> Inl err
               | Inr s \<Rightarrow>
                   Inr (True, d\<lparr>d_dirty := pending\<rparr>,
                        st1\<lparr>st_files := (st_files st1)(d_path d \<mapsto> s)\<rparr>)))"

text \<open>\<^verbatim>\<open>parse_docket\<close>\<close>

definition parse_docket :: "string \<times> string \<Rightarrow> bytes \<Rightarrow> bool \<Rightarrow> error + docket" where
  "parse_docket revlog data use_pending =
     (case S_HEADER_unpack (py_slice data 0 S_HEADER_size) of
        Inl err \<Rightarrow> Inl err
      | Inr (version_header, index_uuid_size, data_uuid_size, index_size,
             pending_index_size, data_size, pending_data_size,
             default_compression_header) \<Rightarrow>
          (let offset = S_HEADER_size;
               index_uuid = py_slice data offset (offset + index_uuid_size);
               offset = offset + index_uuid_size;
               data_uuid = py_slice data offset (offset + data_uuid_size)
           in RevlogDocket_init revlog use_pending version_header (Some index_uuid)
                (Some data_uuid) index_size pending_index_size data_size pending_data_size
                default_compression_header))"

text \<open>The four end fields that a reader finds in a serialized docket: the official and
  pending index ends, then the official and pending data ends.\<close>

definition serialized_ends :: "bytes \<Rightarrow> (int \<times> int \<times> int \<times> int) option" where
  "serialized_ends s =
     (case S_HEADER_unpack (py_slice s 0 S_HEADER_size) of
        Inl err \<Rightarrow> None
      | Inr (h0, h1, h2, official_index_end, pending_index_end, official_data_end,
             pending_data_end, h7) \<Rightarrow>
          Some (official_index_end, pending_index_end, official_data_end, pending_data_end))"

section \<open>The upgrade engine\<close>

text \<open>
  Modelled from the spec: the four delta-reuse policies \<^verbatim>\<open>revlog.DELTAREUSE*\<close>
  (\<^verbatim>\<open>revlog.py\<close> is not among the sources): always, same-revs, never and full-add.
\<close>

datatype deltareuse = DELTAREUSEALWAYS | DELTAREUSESAMEREVS | DELTAREUSENEVER | DELTAREUSEFULLADD

text \<open>The choice of \<^verbatim>\<open>deltareuse\<close> at the start of \<^verbatim>\<open>upgrade\<close>, from
  \<^verbatim>\<open>upgrade_op.actions\<close>.\<close>

definition upgrade_deltareuse :: "string set \<Rightarrow> deltareuse" where
  "upgrade_deltareuse actions =
     (if ''re-delta-all'' \<in> actions then DELTAREUSENEVER
      else if ''re-delta-parent'' \<in> actions then DELTAREUSESAMEREVS
      else if ''re-delta-multibase'' \<in> actions then DELTAREUSESAMEREVS
      else if ''re-delta-fulladd'' \<in> actions then DELTAREUSEFULLADD
      else DELTAREUSEALWAYS)"

definition UPGRADE_CHANGELOG :: string where
  "UPGRADE_CHANGELOG = ''changelog''"

definition UPGRADE_MANIFEST :: string where
  "UPGRADE_MANIFEST = ''manifest''"

definition UPGRADE_FILELOGS :: string where
  "UPGRADE_FILELOGS = ''all-filelogs''"

text \<open>\<^verbatim>\<open>matchrevlog\<close>\<close>

definition matchrevlog :: "string set \<Rightarrow> string \<Rightarrow> bool" where
  "matchrevlog revlogfilter entry =
     (if endswith entry ''00changelog.i'' then UPGRADE_CHANGELOG \<in> revlogfilter
      else if endswith entry ''00manifest.i'' then UPGRADE_MANIFEST \<in> revlogfilter
      else UPGRADE_FILELOGS \<in> revlogfilter)"

text \<open>
  The store of a repository: its files and the entries of its fncache. The revlog
  classes are not among the sources, so the names of the index file and of the data
  file of the revlog that \<^verbatim>\<open>_revlogfrompath\<close> opens for a path are parameters,
  \<open>indexfile\<close> and \<open>datafile\<close>.
\<close>

record repo_store =
  rs_files :: "string \<rightharpoonup> bytes"
  rs_fncache :: "string set"

text \<open>\<^verbatim>\<open>_copyrevlog\<close>: \<^verbatim>\<open>util.copyfile\<close> copies the bytes of the source file; a
  missing source raises.\<close>

definition copyrevlog ::
  "(string \<Rightarrow> string) \<Rightarrow> (string \<Rightarrow> string) \<Rightarrow> repo_store \<Rightarrow> repo_store \<Rightarrow> string
   \<Rightarrow> error + repo_store" where
  "copyrevlog indexfile datafile src dst unencodedname =
     (let oldindex = indexfile unencodedname; newindex = indexfile unencodedname;
          olddata = datafile unencodedname; newdata = datafile unencodedname;
          files1 = (rs_files dst)(newindex \<mapsto> [])
      in case rs_files src oldindex of
           None \<Rightarrow> Inl IOError
         | Some ibytes \<Rightarrow>
            (let files2 = files1(newindex \<mapsto> ibytes);
                 copydata = (rs_files src olddata \<noteq> None);
                 files3 = (case rs_files src olddata of
                             None \<Rightarrow> files2
                           | Some dbytes \<Rightarrow> files2(newdata \<mapsto> dbytes));
                 fncache' =
                   (if \<not> (endswith unencodedname ''00changelog.i''
                           \<or> endswith unencodedname ''00manifest.i'')
                    then (if copydata
                          then insert (py_slice unencodedname 0 (- 2) @ ''.d'')
                                 (insert unencodedname (rs_fncache dst))
                          else insert unencodedname (rs_fncache dst))
                    else rs_fncache dst)
             in Inr \<lparr> rs_files = files3, rs_fncache = fncache' \<rparr>))"

text \<open>
  \<^verbatim>\<open>_clonerevlogs\<close>. \<open>alldatafiles\<close> is \<^verbatim>\<open>list(srcrepo.store.walk())\<close>, with
  entries \<^verbatim>\<open>(unencoded, encoded, size)\<close>; \<open>revisionscount\<close> gives
  \<^verbatim>\<open>storageinfo(...)[b'revisionscount']\<close> of the source revlog at a path. The
  function returns the calls it makes for the revlogs, in order: \<^verbatim>\<open>oldrl.clone\<close>
  with its \<^verbatim>\<open>deltareuse\<close> and \<^verbatim>\<open>forcedeltabothparents\<close>, or \<^verbatim>\<open>_copyrevlog\<close>.
  The progress output and the size statistics are left out.
\<close>

datatype revlog_call = Clone string deltareuse bool | CopyRevlog string

fun count_revisions :: "(string \<Rightarrow> int option) \<Rightarrow> (string \<times> string \<times> int) list \<Rightarrow> int" where
  "count_revisions revisionscount [] = 0"
| "count_revisions revisionscount ((unencoded, encoded, sz) # rest) =
     (if endswith unencoded ''.d'' then count_revisions revisionscount rest
      else (case revisionscount unencoded of None \<Rightarrow> 0 | Some n \<Rightarrow> n)
           + count_revisions revisionscount rest)"

fun clonerevlogs_loop ::
  "(string \<times> string \<times> int) list \<Rightarrow> deltareuse \<Rightarrow> bool \<Rightarrow> string set \<Rightarrow> revlog_call list" where
  "clonerevlogs_loop [] deltareuse forcedeltabothparents revlogs = []"
| "clonerevlogs_loop ((unencoded, encoded, sz) # rest) deltareuse forcedeltabothparents
     revlogs =
     (if endswith unencoded ''.d''
      then clonerevlogs_loop rest deltareuse forcedeltabothparents revlogs
      else (if matchrevlog revlogs unencoded
            then Clone unencoded deltareuse forcedeltabothparents
            else CopyRevlog unencoded)
           # clonerevlogs_loop rest deltareuse forcedeltabothparents revlogs)"

definition clonerevlogs ::
  "(string \<Rightarrow> int option) \<Rightarrow> (string \<times> string \<times> int) list \<Rightarrow> deltareuse \<Rightarrow> bool
   \<Rightarrow> string set \<Rightarrow> revlog_call list" where
  "clonerevlogs revisionscount alldatafiles deltareuse forcedeltabothparents revlogs =
     (let revcount = count_revisions revisionscount alldatafiles
      in if revcount = 0 then []
         else clonerevlogs_loop alldatafiles deltareuse forcedeltabothparents revlogs)"

text \<open>The revlog phase of \<^verbatim>\<open>upgrade\<close>: the call of \<^verbatim>\<open>_clonerevlogs\<close> with the
  policy chosen from the actions.\<close>

definition upgrade_revlogs ::
  "(string \<Rightarrow> int option) \<Rightarrow> (string \<times> string \<times> int) list \<Rightarrow> string set \<Rightarrow> string set
   \<Rightarrow> revlog_call list" where
  "upgrade_revlogs revisionscount alldatafiles actions revlogs_to_process =
     clonerevlogs revisionscount alldatafiles (upgrade_deltareuse actions)
       (''re-delta-multibase'' \<in> actions) revlogs_to_process"

text \<open>\<^verbatim>\<open>stat.S_IFREG\<close> is \<^verbatim>\<open>0o100000\<close>.\<close>

definition S_IFREG :: int where
  "S_IFREG = 32768"

text \<open>\<^verbatim>\<open>_filterstorefile\<close>; the repositories, the requirements and the stat data are
  not used by it.\<close>

definition filterstorefile :: "string \<Rightarrow> int \<Rightarrow> bool" where
  "filterstorefile path mode =
     (if endswith path ''.i'' \<or> endswith path ''.d'' \<or> endswith path ''.n''
         \<or> endswith path ''.nd'' then False
      else if startswith path ''undo'' then False
      else if mode \<noteq> S_IFREG then False
      else if path \<in> {''lock'', ''fncache''} then False
      else True)"

text \<open>
  The loop of \<^verbatim>\<open>upgrade\<close> over \<^verbatim>\<open>sorted(srcrepo.store.vfs.readdir(b'', stat=True))\<close>,
  whose entries are \<^verbatim>\<open>(p, kind, st)\<close>. It returns the paths it copied, in order, and
  the files of the destination store. The names of a directory are distinct, so the
  sort is by name.
\<close>

fun copy_store_files_loop ::
  "(string \<times> int \<times> 'st) list \<Rightarrow> (string \<rightharpoonup> bytes) \<Rightarrow> (string \<rightharpoonup> bytes)
   \<Rightarrow> error + string list \<times> (string \<rightharpoonup> bytes)" where
  "copy_store_files_loop [] src dst = Inr ([], dst)"
| "copy_store_files_loop ((p, kind, st) # rest) src dst =
     (if \<not> filterstorefile p kind then copy_store_files_loop rest src dst
      else (case src p of
              None \<Rightarrow> Inl IOError
            | Some content \<Rightarrow>
               (case copy_store_files_loop rest src (dst(p \<mapsto> content)) of
                  Inl err \<Rightarrow> Inl err
                | Inr (copied, dst') \<Rightarrow> Inr (p # copied, dst'))))"

definition copy_store_files ::
  "(string \<times> int \<times> 'st) list \<Rightarrow> (string \<rightharpoonup> bytes) \<Rightarrow> (string \<rightharpoonup> bytes)
   \<Rightarrow> error + string list \<times> (string \<rightharpoonup> bytes)" where
  "copy_store_files entries src dst = copy_store_files_loop (sort_key fst entries) src dst"

section \<open>Well-formed indexes\<close>

text \<open>
  \<open>nodemap_valid\<close>: the cache \<^verbatim>\<open>_nodemap\<close>, when it is filled, is the map that the
  property computes from the entries. \<open>entries_decode\<close>: \<^verbatim>\<open>__getitem__\<close> returns an
  entry for every revision. \<open>nodes_distinct\<close>: no two revisions have the same node.
  \<open>no_null_node\<close>: no revision has the null node.
\<close>

definition nodemap_valid :: "index \<Rightarrow> bool" where
  "nodemap_valid ix \<longleftrightarrow>
     (case ix_nodemap ix of None \<Rightarrow> True | Some nm \<Rightarrow> compute_nodemap ix = Inr nm)"

definition entries_decode :: "index \<Rightarrow> bool" where
  "entries_decode ix \<longleftrightarrow>
     (\<forall>r. 0 \<le> r \<and> r < index_len ix \<longrightarrow> (\<exists>e. getitem ix r = Inr e))"

definition nodes_distinct :: "index \<Rightarrow> bool" where
  "nodes_distinct ix \<longleftrightarrow>
     (\<forall>r s e f. 0 \<le> r \<and> r < index_len ix \<and> 0 \<le> s \<and> s < index_len ix
        \<and> getitem ix r = Inr e \<and> getitem ix s = Inr f \<and> node e = node f \<longrightarrow> r = s)"

definition no_null_node :: "index \<Rightarrow> bool" where
  "no_null_node ix \<longleftrightarrow>
     (\<forall>r e. 0 \<le> r \<and> r < index_len ix \<and> getitem ix r = Inr e \<longrightarrow> node e \<noteq> nullid)"

text \<open>The node of a revision, when \<^verbatim>\<open>__getitem__\<close> returns its entry.\<close>

definition rev_node :: "index \<Rightarrow> int \<Rightarrow> bytes option" where
  "rev_node ix r = (case getitem ix r of Inl err \<Rightarrow> None | Inr e \<Rightarrow> Some (node e))"

section \<open>Sample values\<close>

text \<open>Concrete inputs at which the theorems below are instantiated.\<close>

definition sample_entry :: entry where
  "sample_entry = \<lparr> offset_flags = 65537, comp_len = 11, uncomp_len = 30, base_rev = 0,
      link_rev = 4, p1_rev = 0, p2_rev = - 1, node = replicate 20 7,
      sidedata_offset = 0, sidedata_length = 0,
      data_comp_mode = COMP_MODE_INLINE, sidedata_comp_mode = 1 \<rparr>"

text \<open>The same entry with a node of 19 bytes, and with an \<^verbatim>\<open>offset_flags\<close> that no
  unsigned field holds.\<close>

definition sample_short_node_entry :: entry where
  "sample_short_node_entry = sample_entry\<lparr>node := replicate 19 7\<rparr>"

definition sample_negative_entry :: entry where
  "sample_negative_entry = sample_entry\<lparr>offset_flags := - 1\<rparr>"

definition sample_readdir :: "(string \<times> int \<times> unit) list" where
  "sample_readdir =
     [(''requires'', 32768, ()), (''00changelog.i'', 32768, ()), (''data'', 16384, ()),
      (''undo.backupfiles'', 32768, ()), (''lock'', 40960, ()), (''fncache'', 32768, ()),
      (''phaseroots'', 32768, ())]"

definition sample_store_files :: "string \<rightharpoonup> bytes" where
  "sample_store_files =
     [''requires'' \<mapsto> [1, 2], ''00changelog.i'' \<mapsto> [3], ''undo.backupfiles'' \<mapsto> [],
      ''fncache'' \<mapsto> [4], ''phaseroots'' \<mapsto> [5, 6, 7]]"

definition sample_datafiles :: "(string \<times> string \<times> int) list" where
  "sample_datafiles =
     [(''data/foo.i'', ''data/foo.i'', 64), (''data/foo.d'', ''data/foo.d'', 10),
      (''00manifest.i'', ''00manifest.i'', 64), (''00changelog.i'', ''00changelog.i'', 64)]"

definition sample_indexfile :: "string \<Rightarrow> string" where
  "sample_indexfile u = u"

definition sample_datafile :: "string \<Rightarrow> string" where
  "sample_datafile u = py_slice u 0 (- 2) @ ''.d''"

definition sample_src_store :: repo_store where
  "sample_src_store =
     \<lparr> rs_files = [''data/foo.i'' \<mapsto> [1, 2, 3], ''data/foo.d'' \<mapsto> [4, 5]],
       rs_fncache = {''data/foo.i'', ''data/foo.d''} \<rparr>"

definition sample_dst_store :: repo_store where
  "sample_dst_store = \<lparr> rs_files = Map.empty, rs_fncache = {} \<rparr>"

definition sample_empty_revlogs :: "string \<Rightarrow> int option" where
  "sample_empty_revlogs u = Some 0"

definition sample_revlogs :: "string \<Rightarrow> int option" where
  "sample_revlogs u = Some 3"

definition sample_uuid :: bytes where
  "sample_uuid = [48, 52, 97, 98]"

definition sample_docket :: docket where
  "sample_docket =
     \<lparr> d_version_header = Some 2, d_read_only = False, d_dirty = False,
       d_radix = ''00changelog'', d_path = ''00changelog.i'',
       d_index_uuid = Some sample_uuid, d_data_uuid = Some sample_uuid,
       d_initial_index_end = 128, d_pending_index_end = 128,
       d_initial_data_end = 10, d_pending_data_end = 10,
       d_index_end = 128, d_data_end = 10,
       d_default_compression_header = Some [117] \<rparr>"


definition sample_state :: store_state where
  "sample_state = \<lparr> st_backups = [], st_files = Map.empty \<rparr>"







definition sample_serialized :: bytes where
  "sample_serialized =
     [0, 0, 0, 2, 4, 4, 0, 0, 0, 128, 0, 0, 0, 64, 0, 0, 0, 10, 0, 0, 0, 10, 117,
      48, 52, 97, 98, 48, 52, 97, 98]"

text \<open>Two v1 records as they are on disk: the first carries the version header (inline
  flag, version 1) in its first four bytes and the flags 3; the second has offset 11.
  \<open>sample_inline_data\<close> interleaves them with their payloads of 11 and 5 bytes.\<close>

definition sample_record0 :: bytes where
  "sample_record0 =
     [0, 1, 0, 1, 0, 0, 0, 3] @ [0, 0, 0, 11] @ [0, 0, 0, 30] @ [0, 0, 0, 0] @ [0, 0, 0, 0]
     @ [255, 255, 255, 255] @ [255, 255, 255, 255] @ replicate 20 7 @ replicate 12 0"

definition sample_record1 :: bytes where
  "sample_record1 =
     [0, 0, 0, 0, 0, 11, 0, 0] @ [0, 0, 0, 5] @ [0, 0, 0, 9] @ [0, 0, 0, 0] @ [0, 0, 0, 1]
     @ [0, 0, 0, 0] @ [255, 255, 255, 255] @ replicate 20 9 @ replicate 12 0"

definition sample_index_data :: bytes where
  "sample_index_data = sample_record0 @ sample_record1"


definition sample_index :: index where
  "sample_index =
     \<lparr> ix_version = V1, ix_inlined = False, ix_data = sample_index_data, ix_lgt = 2,
       ix_extra = [], ix_offsets = [], ix_nodemap = None \<rparr>"

definition sample_entry0 :: entry where
  "sample_entry0 = \<lparr> offset_flags = 3, comp_len = 11, uncomp_len = 30, base_rev = 0,
      link_rev = 0, p1_rev = - 1, p2_rev = - 1, node = replicate 20 7,
      sidedata_offset = 0, sidedata_length = 0,
      data_comp_mode = COMP_MODE_INLINE, sidedata_comp_mode = COMP_MODE_INLINE \<rparr>"

definition sample_entry1 :: entry where
  "sample_entry1 = \<lparr> offset_flags = 720896, comp_len = 5, uncomp_len = 9, base_rev = 0,
      link_rev = 1, p1_rev = 0, p2_rev = - 1, node = replicate 20 9,
      sidedata_offset = 0, sidedata_length = 0,
      data_comp_mode = COMP_MODE_INLINE, sidedata_comp_mode = COMP_MODE_INLINE \<rparr>"



definition sample_empty_index :: index where
  "sample_empty_index =
     \<lparr> ix_version = V1, ix_inlined = False, ix_data = [], ix_lgt = 0,
       ix_extra = [], ix_offsets = [], ix_nodemap = None \<rparr>"

definition sample_null_record :: bytes where
  "sample_null_record = replicate 16 0 @ replicate 16 255 @ replicate 32 0"

definition sample_null_index :: index where
  "sample_null_index = sample_empty_index\<lparr>ix_extra := [sample_null_record]\<rparr>"

text \<open>
  The empty index after a look-up has filled its node map cache, then after the null
  entry has been appended to it, and then after revision 0 has been stripped again.
\<close>

definition sample_cached_empty_index :: index where
  "sample_cached_empty_index = sample_empty_index\<lparr>ix_nodemap := Some [nullid \<mapsto> nullrev]\<rparr>"

definition sample_cached_null_index :: index where
  "sample_cached_null_index =
     sample_empty_index\<lparr>ix_extra := [sample_null_record], ix_nodemap := Some [nullid \<mapsto> 0]\<rparr>"

definition sample_stale_index :: index where
  "sample_stale_index = sample_empty_index\<lparr>ix_nodemap := Some Map.empty\<rparr>"

text \<open>A v2 index holding one revision, appended in memory.\<close>

definition sample_v2_record :: bytes where
  "sample_v2_record =
     replicate 8 0 @ [0, 0, 0, 11] @ [0, 0, 0, 30] @ [0, 0, 0, 0] @ [0, 0, 0, 0]
     @ [255, 255, 255, 255] @ [255, 255, 255, 255] @ replicate 20 7 @ replicate 12 0
     @ replicate 8 0 @ [0, 0, 0, 0] @ [10] @ replicate 19 0"

definition sample_v2_entry :: entry where
  "sample_v2_entry = \<lparr> offset_flags = 0, comp_len = 11, uncomp_len = 30, base_rev = 0,
      link_rev = 0, p1_rev = - 1, p2_rev = - 1, node = replicate 20 7,
      sidedata_offset = 0, sidedata_length = 0,
      data_comp_mode = 2, sidedata_comp_mode = 2 \<rparr>"

definition sample_v2_empty_index :: index where
  "sample_v2_empty_index =
     \<lparr> ix_version = V2, ix_inlined = False, ix_data = [], ix_lgt = 0,
       ix_extra = [], ix_offsets = [], ix_nodemap = None \<rparr>"

definition sample_v2_index :: index where
  "sample_v2_index = sample_v2_empty_index\<lparr>ix_extra := [sample_v2_record]\<rparr>"

text \<open>An inline v1 index of one record whose compressed length field holds \<open>-64\<close>.\<close>

definition sample_looping_data :: bytes where
  "sample_looping_data = replicate 8 0 @ [255, 255, 255, 192] @ replicate 52 0"

text \<open>A split v1 index whose two revisions have the same node, and what is left of it
  after the second one is deleted.\<close>

definition sample_dup_index :: index where
  "sample_dup_index =
     \<lparr> ix_version = V1, ix_inlined = False, ix_data = sample_record1 @ sample_record1,
       ix_lgt = 2, ix_extra = [], ix_offsets = [], ix_nodemap = None \<rparr>"

definition sample_dup_stripped :: index where
  "sample_dup_stripped =
     \<lparr> ix_version = V1, ix_inlined = False, ix_data = sample_record1,
       ix_lgt = 1, ix_extra = [], ix_offsets = [], ix_nodemap = None \<rparr>"

section \<open>Numerals\<close>

lemma be_encode_numeral:
  "be_encode (numeral k) v = be_encode (pred_numeral k) (v div 256) @ [word_of_int v]"
  by (simp add: numeral_eq_Suc)

lemma replicate_numeral:
  "replicate (numeral k) x = x # replicate (pred_numeral k) x"
  by (simp add: numeral_eq_Suc)


section \<open>Index entry encoding and decoding\<close>

lemma length_be_encode [simp]: "length (be_encode n v) = n"
  by (induction n arbitrary: v) auto

lemma be_decode_snoc: "be_decode (bs @ [b]) = be_decode bs * 256 + uint b"
  by (simp add: be_decode_def)

lemma be_decode_encode: "be_decode (be_encode n v) = v mod 256 ^ n"
proof (induction n arbitrary: v)
  case 0
  then show ?case by (simp add: be_decode_def)
next
  case (Suc n)
  have "uint (word_of_int v :: byte) = v mod 256"
    by (simp add: uint_word_of_int)
  then have "be_decode (be_encode (Suc n) v) = (v div 256) mod 256 ^ n * 256 + v mod 256"
    by (simp add: be_decode_snoc Suc.IH)
  also have "\<dots> = v mod 256 ^ Suc n"
    using zmod_zmult2_eq [of "256 ^ n" v 256] by simp
  finally show ?case .
qed

lemma be_decode_Q: "fits_Q v \<Longrightarrow> be_decode (be_encode 8 v) = v"
  by (simp add: be_decode_encode fits_Q_def)

lemma be_decode_B: "fits_B v \<Longrightarrow> be_decode (be_encode 1 v) = v"
  unfolding be_decode_encode by (simp add: fits_B_def)

lemma be_decode_signed_i: "fits_i v \<Longrightarrow> be_decode_signed (be_encode 4 v) = v"
proof -
  assume a: "fits_i v"
  have m: "be_decode (be_encode 4 v) = v mod 4294967296"
    by (simp add: be_decode_encode)
  show ?thesis
  proof (cases "0 \<le> v")
    case True
    with a have "v mod 4294967296 = v" by (simp add: fits_i_def)
    with a True show ?thesis by (simp add: be_decode_signed_def m fits_i_def Let_def)
  next
    case False
    have "v mod 4294967296 = (v + 4294967296) mod 4294967296"
      by simp
    also have "\<dots> = v + 4294967296"
      by (rule mod_pos_pos_trivial) (use a False in \<open>simp_all add: fits_i_def\<close>)
    finally have "v mod 4294967296 = v + 4294967296" .
    with a False show ?thesis by (simp add: be_decode_signed_def m fits_i_def Let_def)
  qed
qed


lemma be_decode_single: "fits_B v \<Longrightarrow> be_decode [word_of_int v] = v"
  by (simp add: be_decode_def fits_B_def uint_word_of_int)

lemma length_pack_s [simp]: "length (pack_s n s) = n"
  by (simp add: pack_s_def)

lemma length_pad [simp]: "length (pad n) = n"
  by (simp add: pad_def)

lemma pack_s_exact: "length s = n \<Longrightarrow> pack_s n s = s"
  by (simp add: pack_s_def)

lemma V1_roundtrip:
  assumes "INDEX_ENTRY_V1_pack (f0, f1, f2, f3, f4, f5, f6, f7) = Inr bs"
  shows "INDEX_ENTRY_V1_unpack bs = Inr (f0, f1, f2, f3, f4, f5, f6, pack_s 20 f7)"
  using assms
  by (auto simp: INDEX_ENTRY_V1_pack_def INDEX_ENTRY_V1_unpack_def INDEX_ENTRY_V1_size_def
      be_decode_Q be_decode_signed_i split: if_splits)

lemma V2_roundtrip:
  assumes "INDEX_ENTRY_V2_pack (f0, f1, f2, f3, f4, f5, f6, f7, f8, f9, f10) = Inr bs"
  shows "INDEX_ENTRY_V2_unpack bs = Inr (f0, f1, f2, f3, f4, f5, f6, pack_s 20 f7, f8, f9, f10)"
  using assms
  by (auto simp: INDEX_ENTRY_V2_pack_def INDEX_ENTRY_V2_unpack_def INDEX_ENTRY_V2_size_def
      be_decode_Q be_decode_signed_i be_decode_single split: if_splits)

lemma modes_byte:
  assumes "0 \<le> d" "d \<le> 3" "0 \<le> s" "s \<le> 3"
  shows "fits_B ((d AND 3) OR push_bit 2 (s AND 3))"
    and "((d AND 3) OR push_bit 2 (s AND 3)) AND 3 = d"
    and "drop_bit 2 (((d AND 3) OR push_bit 2 (s AND 3)) AND push_bit 2 3) = (s::int)"
    and "(d AND 3) OR push_bit 2 (s AND 3) = d + 4 * s"
proof -
  from assms have "d \<in> {0, 1, 2, 3}" "s \<in> {0, 1, 2, 3}" by auto
  then show "fits_B ((d AND 3) OR push_bit 2 (s AND 3))"
    and "((d AND 3) OR push_bit 2 (s AND 3)) AND 3 = d"
    and "drop_bit 2 (((d AND 3) OR push_bit 2 (s AND 3)) AND push_bit 2 3) = (s::int)"
    and "(d AND 3) OR push_bit 2 (s AND 3) = d + 4 * s"
    by (auto simp: fits_B_def)
qed


lemma modes_byte_bits:
  assumes "0 \<le> d" "d \<le> 3" "0 \<le> s" "s \<le> 3"
  shows "(d + 4 * s) AND 3 = d"
    and "drop_bit 2 (d + 4 * s) AND 3 = (s::int)"
    and "drop_bit 4 (d + 4 * s) = (0::int)"
proof -
  from assms have "d \<in> {0, 1, 2, 3}" "s \<in> {0, 1, 2, 3}" by auto
  then show "(d + 4 * s) AND 3 = d"
    and "drop_bit 2 (d + 4 * s) AND 3 = (s::int)"
    and "drop_bit 4 (d + 4 * s) = (0::int)"
    by auto
qed

lemma pack_entry_v1_succeeds:
  "(\<exists>bs. pack_entry V1 e = Inr bs) \<longleftrightarrow>
     sidedata_offset e = 0 \<and> sidedata_length e = 0 \<and> fits_Q (offset_flags e)
     \<and> fits_i (comp_len e) \<and> fits_i (uncomp_len e) \<and> fits_i (base_rev e)
     \<and> fits_i (link_rev e) \<and> fits_i (p1_rev e) \<and> fits_i (p2_rev e)"
  by (simp add: pack_entry_def pack_entry_v1_def INDEX_ENTRY_V1_pack_def)

lemma pack_entry_v2_succeeds:
  "(\<exists>bs. pack_entry V2 e = Inr bs) \<longleftrightarrow>
     fits_Q (offset_flags e)
     \<and> fits_i (comp_len e) \<and> fits_i (uncomp_len e) \<and> fits_i (base_rev e)
     \<and> fits_i (link_rev e) \<and> fits_i (p1_rev e) \<and> fits_i (p2_rev e)
     \<and> fits_Q (sidedata_offset e) \<and> fits_i (sidedata_length e)"
proof -
  have "fits_B ((data_comp_mode e AND 3) OR push_bit 2 (sidedata_comp_mode e AND 3))"
  proof -
    have "0 \<le> data_comp_mode e AND 3" "data_comp_mode e AND 3 \<le> 3"
      "0 \<le> sidedata_comp_mode e AND 3" "sidedata_comp_mode e AND 3 \<le> 3"
      by (simp_all add: AND_upper2)
    then show ?thesis
      using modes_byte(1) [of "data_comp_mode e AND 3" "sidedata_comp_mode e AND 3"]
      by simp
  qed
  then show ?thesis
    by (simp add: pack_entry_def pack_entry_v2_def INDEX_ENTRY_V2_pack_def Let_def)
qed

lemma pack_entry_length:
  "pack_entry v e = Inr bs \<Longrightarrow> int (length bs) = entry_size v"
  by (cases v)
    (auto simp: pack_entry_def pack_entry_v1_def pack_entry_v2_def INDEX_ENTRY_V1_pack_def
      INDEX_ENTRY_V2_pack_def entry_size_def INDEX_ENTRY_V1_size_def INDEX_ENTRY_V2_size_def
      Let_def split: if_splits)

lemma pack_entry_v2_roundtrip:
  assumes r: "0 \<le> data_comp_mode e" "data_comp_mode e \<le> 3"
    "0 \<le> sidedata_comp_mode e" "sidedata_comp_mode e \<le> 3"
    and n: "length (node e) = 20"
    and pk: "pack_entry_v2 e = Inr bs"
  shows "unpack_entry_v2 bs = Inr e"
    and "uint (bs ! 76) = data_comp_mode e + 4 * sidedata_comp_mode e"
proof -
  define b where "b = (data_comp_mode e AND 3) OR push_bit 2 (sidedata_comp_mode e AND 3)"
  note m = modes_byte [OF r, folded b_def]
  from pk have p: "INDEX_ENTRY_V2_pack (offset_flags e, comp_len e, uncomp_len e, base_rev e,
             link_rev e, p1_rev e, p2_rev e, node e, sidedata_offset e, sidedata_length e, b)
           = Inr bs"
    by (simp add: pack_entry_v2_def Let_def b_def)
  from V2_roundtrip [OF p] n m(2,3)
  show "unpack_entry_v2 bs = Inr e"
    by (simp add: unpack_entry_v2_def pack_s_exact Let_def)
  from p have "bs ! 76 = word_of_int b"
    by (auto simp: INDEX_ENTRY_V2_pack_def nth_append split: if_splits)
  with m(1) have "uint (bs ! 76) = b"
    by (simp add: uint_word_of_int fits_B_def)
  then show "uint (bs ! 76) = data_comp_mode e + 4 * sidedata_comp_mode e"
    unfolding m(4) .
qed

lemma pack_entry_v2_roundtrip_node:
  assumes r: "0 \<le> data_comp_mode e" "data_comp_mode e \<le> 3"
    "0 \<le> sidedata_comp_mode e" "sidedata_comp_mode e \<le> 3"
    and pk: "pack_entry_v2 e = Inr bs"
  shows "unpack_entry_v2 bs = Inr (e\<lparr>node := pack_s 20 (node e)\<rparr>)"
proof -
  define b where "b = (data_comp_mode e AND 3) OR push_bit 2 (sidedata_comp_mode e AND 3)"
  note m = modes_byte [OF r, folded b_def]
  from pk have p: "INDEX_ENTRY_V2_pack (offset_flags e, comp_len e, uncomp_len e, base_rev e,
             link_rev e, p1_rev e, p2_rev e, node e, sidedata_offset e, sidedata_length e, b)
           = Inr bs"
    by (simp add: pack_entry_v2_def Let_def b_def)
  from V2_roundtrip [OF p] m(2,3)
  show "unpack_entry_v2 bs = Inr (e\<lparr>node := pack_s 20 (node e)\<rparr>)"
    by (simp add: unpack_entry_v2_def Let_def)
qed

lemma node_update_differs:
  "length (node e) \<noteq> 20 \<Longrightarrow> e\<lparr>node := pack_s 20 (node e)\<rparr> \<noteq> e"
proof
  assume a: "length (node e) \<noteq> 20" and b: "e\<lparr>node := pack_s 20 (node e)\<rparr> = e"
  from b have "node (e\<lparr>node := pack_s 20 (node e)\<rparr>) = node e" by simp
  then have "pack_s 20 (node e) = node e" by simp
  then have "length (pack_s 20 (node e)) = length (node e)" by simp
  with a show False by simp
qed

lemma unpack_entry_v2_shape:
  assumes "unpack_entry_v2 data = Inr e"
  shows "0 \<le> data_comp_mode e" "data_comp_mode e \<le> 3"
    "0 \<le> sidedata_comp_mode e" "sidedata_comp_mode e \<le> 3" "length (node e) = 20"
proof -
  from assms obtain f10 where d: "data_comp_mode e = f10 AND 3"
    and s: "sidedata_comp_mode e = drop_bit 2 (f10 AND 12)"
    and n: "length (node e) = 20"
    by (auto simp: unpack_entry_v2_def INDEX_ENTRY_V2_unpack_def INDEX_ENTRY_V2_size_def
        Let_def split: if_splits)
  show "length (node e) = 20" by (rule n)
  show "0 \<le> data_comp_mode e" "data_comp_mode e \<le> 3"
    unfolding d by (simp_all add: AND_upper2)
  have b: "0 \<le> f10 AND 12" "f10 AND 12 \<le> 12"
    by (simp_all add: AND_upper2)
  have q: "drop_bit 2 (f10 AND 12) = (f10 AND 12) div 4"
    by (simp add: drop_bit_eq_div)
  from b show "0 \<le> sidedata_comp_mode e" "sidedata_comp_mode e \<le> 3"
    unfolding s q by linarith+
qed

text \<open>
  C1, as amended. Encoding is the inverse of decoding on the entries that the record
  format can hold. For an entry whose integer fields are in the ranges of their fields
  and whose sidedata offset and length are 0, \<^verbatim>\<open>_pack_entry\<close> of a v1 class
  returns 64 bytes, and \<^verbatim>\<open>_unpack_entry\<close> of these bytes returns the entry with
  both compression modes set to inline and with the node cut or zero-padded to 20 bytes:
  the original entry (with inline modes) when its node has 20 bytes, and another entry
  when it has not. For an entry whose integer fields are in range and whose compression
  modes lie in 0..3, \<^verbatim>\<open>_pack_entry\<close> of a v2 class returns 96 bytes; byte 76 of
  them, the last field before the padding, holds the data mode in its low 2 bits and the
  sidedata mode in the next 2 bits, its high 4 bits are 0; and \<^verbatim>\<open>_unpack_entry\<close>
  returns the entry with the node cut or zero-padded to 20 bytes: the original entry when
  its node has 20 bytes, and another entry when it has not. In both formats encoding
  fails when a field is out of range, and in v1 when the sidedata offset or length is
  not 0.
\<close>

theorem pack_unpack_entry_roundtrip:
  "(sidedata_offset e = 0 \<and> sidedata_length e = 0 \<and> entry_fits V1 e
    \<longrightarrow> (\<exists>bs. pack_entry V1 e = Inr bs \<and> length bs = 64
          \<and> unpack_entry V1 bs
              = Inr (e\<lparr>node := take 20 (node e) @ replicate (20 - length (node e)) 0,
                       data_comp_mode := COMP_MODE_INLINE,
                       sidedata_comp_mode := COMP_MODE_INLINE\<rparr>)
          \<and> (length (node e) = 20 \<longrightarrow>
                unpack_entry V1 bs
                  = Inr (e\<lparr>data_comp_mode := COMP_MODE_INLINE,
                           sidedata_comp_mode := COMP_MODE_INLINE\<rparr>))
          \<and> (length (node e) \<noteq> 20 \<longrightarrow>
                unpack_entry V1 bs
                  \<noteq> Inr (e\<lparr>data_comp_mode := COMP_MODE_INLINE,
                           sidedata_comp_mode := COMP_MODE_INLINE\<rparr>))))
   \<and> (sidedata_offset e \<noteq> 0 \<or> sidedata_length e \<noteq> 0
      \<longrightarrow> pack_entry V1 e = Inl AssertionError)
   \<and> (sidedata_offset e = 0 \<and> sidedata_length e = 0 \<and> \<not> entry_fits V1 e
      \<longrightarrow> pack_entry V1 e = Inl StructError)
   \<and> (0 \<le> data_comp_mode e \<and> data_comp_mode e \<le> 3
      \<and> 0 \<le> sidedata_comp_mode e \<and> sidedata_comp_mode e \<le> 3
      \<and> entry_fits V2 e
    \<longrightarrow> (\<exists>bs. pack_entry V2 e = Inr bs \<and> length bs = 96
          \<and> uint (bs ! 76) AND 3 = data_comp_mode e
          \<and> drop_bit 2 (uint (bs ! 76)) AND 3 = sidedata_comp_mode e
          \<and> drop_bit 4 (uint (bs ! 76)) = 0
          \<and> unpack_entry V2 bs
              = Inr (e\<lparr>node := take 20 (node e) @ replicate (20 - length (node e)) 0\<rparr>)
          \<and> (length (node e) = 20 \<longrightarrow> unpack_entry V2 bs = Inr e)
          \<and> (length (node e) \<noteq> 20 \<longrightarrow> unpack_entry V2 bs \<noteq> Inr e)))
   \<and> (\<not> entry_fits V2 e \<longrightarrow> pack_entry V2 e = Inl StructError)"
proof (intro conjI impI)
  let ?i = "\<lambda>x. x\<lparr>data_comp_mode := COMP_MODE_INLINE, sidedata_comp_mode := COMP_MODE_INLINE\<rparr>"
  assume a: "sidedata_offset e = 0 \<and> sidedata_length e = 0 \<and> entry_fits V1 e"
  then obtain bs where bs: "pack_entry V1 e = Inr bs"
    using pack_entry_v1_succeeds [of e] by (auto simp: entry_fits_def)
  from a bs have "INDEX_ENTRY_V1_pack (offset_flags e, comp_len e, uncomp_len e, base_rev e,
             link_rev e, p1_rev e, p2_rev e, node e) = Inr bs"
    by (auto simp: pack_entry_def pack_entry_v1_def split: if_splits)
  from V1_roundtrip [OF this] a
  have u: "unpack_entry V1 bs = Inr (?i (e\<lparr>node := pack_s 20 (node e)\<rparr>))"
    by (simp add: unpack_entry_def unpack_entry_v1_def)
  have l: "length bs = 64"
    using pack_entry_length [OF bs] by (simp add: entry_size_def INDEX_ENTRY_V1_size_def)
  have e1: "unpack_entry V1 bs = Inr (?i e)" if "length (node e) = 20"
    using u that by (simp add: pack_s_exact)
  have e2: "unpack_entry V1 bs \<noteq> Inr (?i e)" if n: "length (node e) \<noteq> 20"
  proof
    assume "unpack_entry V1 bs = Inr (?i e)"
    with u have "?i (e\<lparr>node := pack_s 20 (node e)\<rparr>) = ?i e" by simp
    then have "node (?i (e\<lparr>node := pack_s 20 (node e)\<rparr>)) = node (?i e)" by (rule arg_cong)
    then have "e\<lparr>node := pack_s 20 (node e)\<rparr> = e" by simp
    with node_update_differs [OF n] show False by simp
  qed
  from bs l u e1 e2
  show "\<exists>bs. pack_entry V1 e = Inr bs \<and> length bs = 64
          \<and> unpack_entry V1 bs
              = Inr (e\<lparr>node := take 20 (node e) @ replicate (20 - length (node e)) 0,
                       data_comp_mode := COMP_MODE_INLINE,
                       sidedata_comp_mode := COMP_MODE_INLINE\<rparr>)
          \<and> (length (node e) = 20 \<longrightarrow>
                unpack_entry V1 bs
                  = Inr (e\<lparr>data_comp_mode := COMP_MODE_INLINE,
                           sidedata_comp_mode := COMP_MODE_INLINE\<rparr>))
          \<and> (length (node e) \<noteq> 20 \<longrightarrow>
                unpack_entry V1 bs
                  \<noteq> Inr (e\<lparr>data_comp_mode := COMP_MODE_INLINE,
                           sidedata_comp_mode := COMP_MODE_INLINE\<rparr>))"
    by (intro exI [of _ bs] conjI impI) (simp_all add: pack_s_def)
next
  assume "sidedata_offset e \<noteq> 0 \<or> sidedata_length e \<noteq> 0"
  then show "pack_entry V1 e = Inl AssertionError"
    by (auto simp: pack_entry_def pack_entry_v1_def)
next
  assume "sidedata_offset e = 0 \<and> sidedata_length e = 0 \<and> \<not> entry_fits V1 e"
  then show "pack_entry V1 e = Inl StructError"
    by (auto simp: pack_entry_def pack_entry_v1_def INDEX_ENTRY_V1_pack_def entry_fits_def)
next
  assume a: "0 \<le> data_comp_mode e \<and> data_comp_mode e \<le> 3
      \<and> 0 \<le> sidedata_comp_mode e \<and> sidedata_comp_mode e \<le> 3
      \<and> entry_fits V2 e"
  then have r: "0 \<le> data_comp_mode e" "data_comp_mode e \<le> 3"
    "0 \<le> sidedata_comp_mode e" "sidedata_comp_mode e \<le> 3"
    by simp_all
  from a obtain bs where bs: "pack_entry V2 e = Inr bs"
    using pack_entry_v2_succeeds [of e] by (auto simp: entry_fits_def)
  then have p: "pack_entry_v2 e = Inr bs" by (simp add: pack_entry_def)
  have t: "uint (bs ! 76) = data_comp_mode e + 4 * sidedata_comp_mode e"
  proof -
    define b where "b = (data_comp_mode e AND 3) OR push_bit 2 (sidedata_comp_mode e AND 3)"
    note m = modes_byte [OF r, folded b_def]
    from p have "INDEX_ENTRY_V2_pack (offset_flags e, comp_len e, uncomp_len e, base_rev e,
             link_rev e, p1_rev e, p2_rev e, node e, sidedata_offset e, sidedata_length e, b)
           = Inr bs"
      by (simp add: pack_entry_v2_def Let_def b_def)
    then have "bs ! 76 = word_of_int b"
      by (auto simp: INDEX_ENTRY_V2_pack_def nth_append split: if_splits)
    with m(1) have "uint (bs ! 76) = b"
      by (simp add: uint_word_of_int fits_B_def)
    then show ?thesis unfolding m(4) .
  qed
  from pack_entry_v2_roundtrip_node [OF r p]
  have u: "unpack_entry V2 bs = Inr (e\<lparr>node := pack_s 20 (node e)\<rparr>)"
    by (simp add: unpack_entry_def)
  have e1: "unpack_entry V2 bs = Inr e" if "length (node e) = 20"
    using u that by (simp add: pack_s_exact)
  have e2: "unpack_entry V2 bs \<noteq> Inr e" if "length (node e) \<noteq> 20"
    using u node_update_differs [OF that] by simp
  have b1: "uint (bs ! 76) AND 3 = data_comp_mode e"
    unfolding t by (rule modes_byte_bits(1) [OF r])
  have b2: "drop_bit 2 (uint (bs ! 76)) AND 3 = sidedata_comp_mode e"
    unfolding t by (rule modes_byte_bits(2) [OF r])
  have b3: "drop_bit 4 (uint (bs ! 76)) = 0"
    unfolding t by (rule modes_byte_bits(3) [OF r])
  from pack_entry_length [OF bs] have l: "length bs = 96"
    by (simp add: entry_size_def INDEX_ENTRY_V2_size_def)
  from u have u': "unpack_entry V2 bs
      = Inr (e\<lparr>node := take 20 (node e) @ replicate (20 - length (node e)) 0\<rparr>)"
    by (simp add: pack_s_def)
  from bs l b1 b2 b3 u' e1 e2
  show "\<exists>bs. pack_entry V2 e = Inr bs \<and> length bs = 96
          \<and> uint (bs ! 76) AND 3 = data_comp_mode e
          \<and> drop_bit 2 (uint (bs ! 76)) AND 3 = sidedata_comp_mode e
          \<and> drop_bit 4 (uint (bs ! 76)) = 0
          \<and> unpack_entry V2 bs
              = Inr (e\<lparr>node := take 20 (node e) @ replicate (20 - length (node e)) 0\<rparr>)
          \<and> (length (node e) = 20 \<longrightarrow> unpack_entry V2 bs = Inr e)
          \<and> (length (node e) \<noteq> 20 \<longrightarrow> unpack_entry V2 bs \<noteq> Inr e)"
    by (intro exI [of _ bs] conjI impI)
next
  assume "\<not> entry_fits V2 e"
  then show "pack_entry V2 e = Inl StructError"
    by (auto simp: pack_entry_def pack_entry_v2_def INDEX_ENTRY_V2_pack_def entry_fits_def
        Let_def)
qed

lemma sample_entry_fits:
  "entry_fits V1 sample_entry" "entry_fits V2 sample_entry"
  "sidedata_offset sample_entry = 0" "sidedata_length sample_entry = 0"
  "length (node sample_entry) = 20"
  "0 \<le> data_comp_mode sample_entry" "data_comp_mode sample_entry \<le> 3"
  "0 \<le> sidedata_comp_mode sample_entry" "sidedata_comp_mode sample_entry \<le> 3"
  by (simp_all add: entry_fits_def sample_entry_def fits_Q_def fits_i_def COMP_MODE_INLINE_def)

theorem pack_unpack_entry_roundtrip_witness:
  "(\<exists>bs. pack_entry V1 sample_entry = Inr bs
        \<and> unpack_entry V1 bs = Inr (sample_entry\<lparr>sidedata_comp_mode := COMP_MODE_INLINE\<rparr>))
   \<and> (\<exists>bs. pack_entry V2 sample_entry = Inr bs
        \<and> uint (bs ! 76) AND 3 = 2 \<and> drop_bit 2 (uint (bs ! 76)) AND 3 = 1
        \<and> unpack_entry V2 bs = Inr sample_entry)
   \<and> pack_entry V1 (sample_entry\<lparr>sidedata_length := 5\<rparr>) = Inl AssertionError
   \<and> pack_entry V1 sample_negative_entry = Inl StructError
   \<and> pack_entry V2 sample_negative_entry = Inl StructError"
proof -
  have i: "sample_entry\<lparr>data_comp_mode := COMP_MODE_INLINE,
      sidedata_comp_mode := COMP_MODE_INLINE\<rparr>
    = sample_entry\<lparr>sidedata_comp_mode := COMP_MODE_INLINE\<rparr>"
    by (simp add: sample_entry_def)
  have m: "data_comp_mode sample_entry = 2" "sidedata_comp_mode sample_entry = 1"
    by (simp_all add: sample_entry_def COMP_MODE_INLINE_def)
  have n: "sidedata_offset sample_negative_entry = 0"
    "sidedata_length sample_negative_entry = 0"
    "\<not> entry_fits V1 sample_negative_entry" "\<not> entry_fits V2 sample_negative_entry"
    "sidedata_length (sample_entry\<lparr>sidedata_length := 5\<rparr>) \<noteq> 0"
    by (simp_all add: sample_negative_entry_def sample_entry_def entry_fits_def fits_Q_def)
  note t = pack_unpack_entry_roundtrip [of sample_entry]
  note tn = pack_unpack_entry_roundtrip [of sample_negative_entry]
  note ta = pack_unpack_entry_roundtrip [of "sample_entry\<lparr>sidedata_length := 5\<rparr>"]
  have "\<exists>bs. pack_entry V1 sample_entry = Inr bs
        \<and> unpack_entry V1 bs = Inr (sample_entry\<lparr>sidedata_comp_mode := COMP_MODE_INLINE\<rparr>)"
    using t sample_entry_fits unfolding i by blast
  moreover have "\<exists>bs. pack_entry V2 sample_entry = Inr bs
        \<and> uint (bs ! 76) AND 3 = 2 \<and> drop_bit 2 (uint (bs ! 76)) AND 3 = 1
        \<and> unpack_entry V2 bs = Inr sample_entry"
    using t sample_entry_fits unfolding m by blast
  moreover have "pack_entry V1 (sample_entry\<lparr>sidedata_length := 5\<rparr>) = Inl AssertionError"
    using ta n(5) by blast
  moreover have "pack_entry V1 sample_negative_entry = Inl StructError"
    "pack_entry V2 sample_negative_entry = Inl StructError"
    using tn n(1-4) by blast+
  ultimately show ?thesis by blast
qed

text \<open>
  The claim as stated fails on an entry whose node has 19 bytes: it is encoded, the
  \<^verbatim>\<open>20s\<close> field pads the node with a zero byte, and decoding returns a node of 20
  bytes, in both formats. It also fails on an entry with a field out of range, such as a
  negative \<^verbatim>\<open>offset_flags\<close>, which no format encodes.
\<close>

theorem pack_unpack_entry_counterexample:
  "sidedata_offset sample_short_node_entry = 0 \<and> sidedata_length sample_short_node_entry = 0
   \<and> data_comp_mode sample_short_node_entry = 2 \<and> sidedata_comp_mode sample_short_node_entry = 1
   \<and> node sample_short_node_entry = replicate 19 7
   \<and> map_sum id node (roundtrip V1 sample_short_node_entry) = Inr (replicate 19 7 @ [0])
   \<and> map_sum id node (roundtrip V2 sample_short_node_entry) = Inr (replicate 19 7 @ [0])
   \<and> sidedata_offset sample_negative_entry = 0 \<and> sidedata_length sample_negative_entry = 0
   \<and> roundtrip V1 sample_negative_entry = Inl StructError
   \<and> roundtrip V2 sample_negative_entry = Inl StructError"
proof -
  have f: "fits_Q 65537" "fits_i 11" "fits_i 30" "fits_i 0" "fits_i 4" "fits_i (- 1)"
    "fits_Q 0" "fits_B 6"
    by (simp_all add: fits_Q_def fits_i_def fits_B_def)
  have p1: "INDEX_ENTRY_V1_pack (65537, 11, 30, 0, 4, 0, - 1, replicate 19 7)
      = Inr (be_encode 8 65537 @ be_encode 4 11 @ be_encode 4 30 @ be_encode 4 0
             @ be_encode 4 4 @ be_encode 4 0 @ be_encode 4 (- 1) @ pack_s 20 (replicate 19 7)
             @ pad 12)"
    by (simp add: INDEX_ENTRY_V1_pack_def f)
  have p2: "INDEX_ENTRY_V2_pack (65537, 11, 30, 0, 4, 0, - 1, replicate 19 7, 0, 0, 6)
      = Inr (be_encode 8 65537 @ be_encode 4 11 @ be_encode 4 30 @ be_encode 4 0
             @ be_encode 4 4 @ be_encode 4 0 @ be_encode 4 (- 1) @ pack_s 20 (replicate 19 7)
             @ pad 12 @ be_encode 8 0 @ be_encode 4 0 @ be_encode 1 6 @ pad 19)"
    by (simp add: INDEX_ENTRY_V2_pack_def f)
  have s: "pack_s 20 (replicate 19 7) = replicate 19 7 @ [0]"
    by (simp add: pack_s_def)
  have r1: "map_sum id node (roundtrip V1 sample_short_node_entry) = Inr (replicate 19 7 @ [0])"
    using V1_roundtrip [OF p1]
    by (simp add: roundtrip_def pack_entry_def pack_entry_v1_def unpack_entry_def
        unpack_entry_v1_def sample_short_node_entry_def sample_entry_def p1 s)
  have b: "((2::int) AND 3) OR push_bit 2 ((1::int) AND 3) = 6" by simp
  have r2: "map_sum id node (roundtrip V2 sample_short_node_entry) = Inr (replicate 19 7 @ [0])"
    using V2_roundtrip [OF p2]
    by (simp add: roundtrip_def pack_entry_def pack_entry_v2_def unpack_entry_def
        unpack_entry_v2_def sample_short_node_entry_def sample_entry_def
        COMP_MODE_INLINE_def Let_def p2 s)
  have n: "roundtrip V1 sample_negative_entry = Inl StructError"
    "roundtrip V2 sample_negative_entry = Inl StructError"
    by (simp_all add: roundtrip_def pack_entry_def pack_entry_v1_def pack_entry_v2_def
        INDEX_ENTRY_V1_pack_def INDEX_ENTRY_V2_pack_def sample_negative_entry_def
        sample_entry_def fits_Q_def Let_def)
  have v: "sidedata_offset sample_short_node_entry = 0"
    "sidedata_length sample_short_node_entry = 0"
    "data_comp_mode sample_short_node_entry = 2" "sidedata_comp_mode sample_short_node_entry = 1"
    "node sample_short_node_entry = replicate 19 7"
    "sidedata_offset sample_negative_entry = 0" "sidedata_length sample_negative_entry = 0"
    by (simp_all add: sample_short_node_entry_def sample_negative_entry_def sample_entry_def
        COMP_MODE_INLINE_def)
  from r1 r2 n v show ?thesis by simp
qed


section \<open>Copying the other store files\<close>

lemma copy_store_files_loop_total:
  assumes "\<forall>(p, kind, st) \<in> set entries. kind = S_IFREG \<longrightarrow> src p \<noteq> None"
  shows "\<exists>copied dst'. copy_store_files_loop entries src dst = Inr (copied, dst')"
  using assms
proof (induction entries arbitrary: dst)
  case Nil
  then show ?case by simp
next
  case (Cons e entries)
  obtain p kind st where e: "e = (p, kind, st)" by (cases e)
  show ?case
  proof (cases "filterstorefile p kind")
    case False
    with Cons e show ?thesis by simp
  next
    case True
    then have "kind = S_IFREG" by (auto simp: filterstorefile_def split: if_splits)
    with Cons.prems e obtain content where c: "src p = Some content" by auto
    from Cons obtain copied dst' where
      "copy_store_files_loop entries src (dst(p \<mapsto> content)) = Inr (copied, dst')"
      by fastforce
    with True e c show ?thesis by simp
  qed
qed

lemma copy_store_files_loop_result:
  assumes "copy_store_files_loop entries src dst = Inr (copied, dst')"
  shows "copied = map fst (filter (\<lambda>(p, kind, st). filterstorefile p kind) entries)
       \<and> (\<forall>p. dst' p = (if p \<in> set copied then src p else dst p))"
  using assms
proof (induction entries arbitrary: dst copied dst')
  case Nil
  then show ?case by simp
next
  case (Cons e entries)
  obtain p kind st where e: "e = (p, kind, st)" by (cases e)
  show ?case
  proof (cases "filterstorefile p kind")
    case False
    with Cons e show ?thesis by simp
  next
    case True
    with Cons.prems e obtain content copied1 where
      c: "src p = Some content"
      and r: "copy_store_files_loop entries src (dst(p \<mapsto> content)) = Inr (copied1, dst')"
      and k: "copied = p # copied1"
      by (auto split: option.splits sum.splits)
    from Cons.IH [OF r] True e c k show ?thesis by auto
  qed
qed

text \<open>
  C7. \<^verbatim>\<open>_filterstorefile\<close> accepts a store path exactly when its name does not end
  with \<^verbatim>\<open>.i\<close>, \<^verbatim>\<open>.d\<close>, \<^verbatim>\<open>.n\<close> or \<^verbatim>\<open>.nd\<close>, does not start with
  \<^verbatim>\<open>undo\<close>, its mode is that of a regular file, and it is neither \<^verbatim>\<open>lock\<close>
  nor \<^verbatim>\<open>fncache\<close>. When the regular files that \<^verbatim>\<open>readdir\<close> lists exist, the
  copy loop of \<^verbatim>\<open>upgrade\<close> returns, the paths it copies are exactly the listed paths
  that the filter accepts, each copied path holds the bytes of the source in the
  destination, and every other path of the destination is untouched.
\<close>

theorem filterstorefile_copies:
  "(filterstorefile path mode \<longleftrightarrow>
      \<not> endswith path ''.i'' \<and> \<not> endswith path ''.d'' \<and> \<not> endswith path ''.n''
      \<and> \<not> endswith path ''.nd'' \<and> \<not> startswith path ''undo'' \<and> mode = S_IFREG
      \<and> path \<noteq> ''lock'' \<and> path \<noteq> ''fncache'')
   \<and> ((\<forall>(p, kind, st) \<in> set entries. kind = S_IFREG \<longrightarrow> src p \<noteq> None) \<longrightarrow>
        (\<exists>copied dst'. copy_store_files entries src dst = Inr (copied, dst')
           \<and> (\<forall>p. p \<in> set copied \<longleftrightarrow>
                  (\<exists>kind st. (p, kind, st) \<in> set entries \<and> filterstorefile p kind))
           \<and> (\<forall>p. dst' p = (if p \<in> set copied then src p else dst p))))"
proof (intro conjI impI)
  show "filterstorefile path mode \<longleftrightarrow>
      \<not> endswith path ''.i'' \<and> \<not> endswith path ''.d'' \<and> \<not> endswith path ''.n''
      \<and> \<not> endswith path ''.nd'' \<and> \<not> startswith path ''undo'' \<and> mode = S_IFREG
      \<and> path \<noteq> ''lock'' \<and> path \<noteq> ''fncache''"
    by (simp add: filterstorefile_def)
next
  assume a: "\<forall>(p, kind, st) \<in> set entries. kind = S_IFREG \<longrightarrow> src p \<noteq> None"
  let ?es = "sort_key fst entries"
  from a have "\<forall>(p, kind, st) \<in> set ?es. kind = S_IFREG \<longrightarrow> src p \<noteq> None"
    by simp
  from copy_store_files_loop_total [OF this] obtain copied dst'
    where r: "copy_store_files_loop ?es src dst = Inr (copied, dst')" by blast
  from copy_store_files_loop_result [OF r]
  have c: "copied = map fst (filter (\<lambda>(p, kind, st). filterstorefile p kind) ?es)"
    and d: "\<forall>p. dst' p = (if p \<in> set copied then src p else dst p)" by simp_all
  have "\<forall>p. p \<in> set copied \<longleftrightarrow>
          (\<exists>kind st. (p, kind, st) \<in> set entries \<and> filterstorefile p kind)"
    unfolding c by force
  with r d show "\<exists>copied dst'. copy_store_files entries src dst = Inr (copied, dst')
           \<and> (\<forall>p. p \<in> set copied \<longleftrightarrow>
                  (\<exists>kind st. (p, kind, st) \<in> set entries \<and> filterstorefile p kind))
           \<and> (\<forall>p. dst' p = (if p \<in> set copied then src p else dst p))"
    unfolding copy_store_files_def by blast
qed

theorem filterstorefile_copies_witness:
  "\<exists>copied dst'. copy_store_files sample_readdir sample_store_files Map.empty
       = Inr (copied, dst')
     \<and> ''requires'' \<in> set copied \<and> ''fncache'' \<notin> set copied
     \<and> dst' ''requires'' = Some [1, 2] \<and> dst' ''fncache'' = None"
proof -
  have h: "\<forall>(p, kind, st) \<in> set sample_readdir. kind = S_IFREG \<longrightarrow> sample_store_files p \<noteq> None"
    by (simp add: sample_readdir_def sample_store_files_def S_IFREG_def)
  from filterstorefile_copies [of "''requires''" 32768 sample_readdir sample_store_files Map.empty] h
  obtain copied dst' where
    r: "copy_store_files sample_readdir sample_store_files Map.empty = Inr (copied, dst')"
    and c: "\<forall>p. p \<in> set copied \<longleftrightarrow>
              (\<exists>kind st. (p, kind, st) \<in> set sample_readdir \<and> filterstorefile p kind)"
    and d: "\<forall>p. dst' p = (if p \<in> set copied then sample_store_files p else Map.empty p)"
    by blast
  have "(''requires'', 32768, ()) \<in> set sample_readdir"
    by (simp add: sample_readdir_def)
  moreover have "filterstorefile ''requires'' 32768"
    by (simp add: filterstorefile_def endswith_def startswith_def S_IFREG_def)
  ultimately have s1: "''requires'' \<in> set copied"
    unfolding c [rule_format] by blast
  have "\<not> filterstorefile ''fncache'' kind" for kind
    by (simp add: filterstorefile_def)
  then have s2: "''fncache'' \<notin> set copied"
    unfolding c [rule_format] by blast
  from d s1 s2 have "dst' ''requires'' = Some [1, 2]" "dst' ''fncache'' = None"
    by (simp_all add: sample_store_files_def)
  with r s1 s2 show ?thesis by blast
qed


section \<open>Cloning or copying the revlogs\<close>

lemma clonerevlogs_loop_set:
  "set (clonerevlogs_loop files dr force revlogs) =
     {Clone u dr force | u. (\<exists>e s. (u, e, s) \<in> set files) \<and> \<not> endswith u ''.d''
                            \<and> matchrevlog revlogs u}
     \<union> {CopyRevlog u | u. (\<exists>e s. (u, e, s) \<in> set files) \<and> \<not> endswith u ''.d''
                            \<and> \<not> matchrevlog revlogs u}"
proof (induction files)
  case Nil
  then show ?case by simp
next
  case (Cons f files)
  obtain u e s where f: "f = (u, e, s)" by (cases f)
  show ?case unfolding f
    by (simp add: Cons.IH) blast
qed

lemma copyrevlog_bytes:
  assumes "rs_files src (indexfile u) \<noteq> None"
  shows "\<exists>dst'. copyrevlog indexfile datafile src dst u = Inr dst'
           \<and> rs_files dst' (indexfile u) = rs_files src (indexfile u)
           \<and> (rs_files src (datafile u) \<noteq> None
                \<longrightarrow> rs_files dst' (datafile u) = rs_files src (datafile u))"
  using assms by (auto simp: copyrevlog_def Let_def split: option.splits)

text \<open>
  C6, as amended. The delta-reuse mode that \<^verbatim>\<open>upgrade\<close> passes on is never when
  \<^verbatim>\<open>re-delta-all\<close> is among the actions, else same-revs when \<^verbatim>\<open>re-delta-parent\<close>
  or \<^verbatim>\<open>re-delta-multibase\<close> is, else full-add when \<^verbatim>\<open>re-delta-fulladd\<close> is, else
  always. When the revlogs of the source store hold at least one revision in total,
  every revlog that the filter selects is cloned with that mode and not copied, and
  every revlog that the filter does not select is handed to \<^verbatim>\<open>_copyrevlog\<close> and not
  cloned. When they hold no revision, \<^verbatim>\<open>_clonerevlogs\<close> returns before it
  clones or copies anything: it makes no call at all. \<^verbatim>\<open>_copyrevlog\<close> of a revlog
  whose index file exists returns and leaves in the destination the bytes of the source
  index file, and those of the source data file when there is one.
\<close>

theorem upgrade_clones_or_copies:
  "upgrade_deltareuse actions =
     (if ''re-delta-all'' \<in> actions then DELTAREUSENEVER
      else if ''re-delta-parent'' \<in> actions \<or> ''re-delta-multibase'' \<in> actions
           then DELTAREUSESAMEREVS
      else if ''re-delta-fulladd'' \<in> actions then DELTAREUSEFULLADD
      else DELTAREUSEALWAYS)
   \<and> (count_revisions revisionscount alldatafiles \<noteq> 0
        \<and> (unencoded, encoded, sz) \<in> set alldatafiles \<and> \<not> endswith unencoded ''.d'' \<longrightarrow>
       (let calls = upgrade_revlogs revisionscount alldatafiles actions revlogs in
          (matchrevlog revlogs unencoded \<longrightarrow>
             Clone unencoded (upgrade_deltareuse actions) (''re-delta-multibase'' \<in> actions)
               \<in> set calls
             \<and> CopyRevlog unencoded \<notin> set calls)
        \<and> (\<not> matchrevlog revlogs unencoded \<longrightarrow>
             CopyRevlog unencoded \<in> set calls
             \<and> (\<forall>dr force. Clone unencoded dr force \<notin> set calls))))
   \<and> (count_revisions revisionscount alldatafiles = 0 \<longrightarrow>
        upgrade_revlogs revisionscount alldatafiles actions revlogs = [])
   \<and> (rs_files src (indexfile unencoded) \<noteq> None \<longrightarrow>
        (\<exists>dst'. copyrevlog indexfile datafile src dst unencoded = Inr dst'
           \<and> rs_files dst' (indexfile unencoded) = rs_files src (indexfile unencoded)
           \<and> (rs_files src (datafile unencoded) \<noteq> None
                \<longrightarrow> rs_files dst' (datafile unencoded) = rs_files src (datafile unencoded))))"
proof (intro conjI impI)
  show "upgrade_deltareuse actions =
     (if ''re-delta-all'' \<in> actions then DELTAREUSENEVER
      else if ''re-delta-parent'' \<in> actions \<or> ''re-delta-multibase'' \<in> actions
           then DELTAREUSESAMEREVS
      else if ''re-delta-fulladd'' \<in> actions then DELTAREUSEFULLADD
      else DELTAREUSEALWAYS)"
    by (simp add: upgrade_deltareuse_def)
next
  assume a: "count_revisions revisionscount alldatafiles \<noteq> 0
        \<and> (unencoded, encoded, sz) \<in> set alldatafiles \<and> \<not> endswith unencoded ''.d''"
  then have c: "set (upgrade_revlogs revisionscount alldatafiles actions revlogs)
      = set (clonerevlogs_loop alldatafiles (upgrade_deltareuse actions)
               (''re-delta-multibase'' \<in> actions) revlogs)"
    by (simp add: upgrade_revlogs_def clonerevlogs_def)
  from a show "let calls = upgrade_revlogs revisionscount alldatafiles actions revlogs in
          (matchrevlog revlogs unencoded \<longrightarrow>
             Clone unencoded (upgrade_deltareuse actions) (''re-delta-multibase'' \<in> actions)
               \<in> set calls
             \<and> CopyRevlog unencoded \<notin> set calls)
        \<and> (\<not> matchrevlog revlogs unencoded \<longrightarrow>
             CopyRevlog unencoded \<in> set calls
             \<and> (\<forall>dr force. Clone unencoded dr force \<notin> set calls))"
    unfolding Let_def c clonerevlogs_loop_set by auto
next
  assume "count_revisions revisionscount alldatafiles = 0"
  then show "upgrade_revlogs revisionscount alldatafiles actions revlogs = []"
    by (simp add: upgrade_revlogs_def clonerevlogs_def)
next
  assume "rs_files src (indexfile unencoded) \<noteq> None"
  then show "\<exists>dst'. copyrevlog indexfile datafile src dst unencoded = Inr dst'
           \<and> rs_files dst' (indexfile unencoded) = rs_files src (indexfile unencoded)
           \<and> (rs_files src (datafile unencoded) \<noteq> None
                \<longrightarrow> rs_files dst' (datafile unencoded) = rs_files src (datafile unencoded))"
    by (rule copyrevlog_bytes)
qed

lemma sample_match:
  "\<not> endswith ''data/foo.i'' ''.d''" "\<not> matchrevlog {UPGRADE_CHANGELOG} ''data/foo.i''"
  by (simp_all add: endswith_def matchrevlog_def UPGRADE_CHANGELOG_def UPGRADE_FILELOGS_def)

theorem upgrade_clones_or_copies_witness:
  "upgrade_deltareuse {''re-delta-parent''} = DELTAREUSESAMEREVS
   \<and> CopyRevlog ''data/foo.i''
       \<in> set (upgrade_revlogs sample_revlogs sample_datafiles {''re-delta-parent''}
                {UPGRADE_CHANGELOG})
   \<and> upgrade_revlogs sample_empty_revlogs sample_datafiles {''re-delta-parent''}
       {UPGRADE_CHANGELOG} = []
   \<and> (\<exists>dst'. copyrevlog sample_indexfile sample_datafile sample_src_store sample_dst_store
                 ''data/foo.i'' = Inr dst'
          \<and> rs_files dst' ''data/foo.i'' = Some [1, 2, 3]
          \<and> rs_files dst' ''data/foo.d'' = Some [4, 5])"
proof -
  have h: "count_revisions sample_revlogs sample_datafiles \<noteq> 0
      \<and> (''data/foo.i'', ''data/foo.i'', 64) \<in> set sample_datafiles
      \<and> \<not> endswith ''data/foo.i'' ''.d''"
    by (simp add: sample_datafiles_def endswith_def sample_revlogs_def)
  have i: "sample_indexfile ''data/foo.i'' = ''data/foo.i''"
    "sample_datafile ''data/foo.i'' = ''data/foo.d''"
    by (simp_all add: sample_indexfile_def sample_datafile_def py_slice_def)
  have s: "rs_files sample_src_store (sample_indexfile ''data/foo.i'') \<noteq> None"
    "rs_files sample_src_store ''data/foo.i'' = Some [1, 2, 3]"
    "rs_files sample_src_store ''data/foo.d'' = Some [4, 5]"
    unfolding i by (simp_all add: sample_src_store_def)
  from upgrade_clones_or_copies [of "{''re-delta-parent''}" sample_revlogs sample_datafiles
      "''data/foo.i''" "''data/foo.i''" 64 "{UPGRADE_CHANGELOG}" sample_src_store
      sample_indexfile sample_datafile sample_dst_store]
    h s(1) sample_match(2)
  have a: "upgrade_deltareuse {''re-delta-parent''} = DELTAREUSESAMEREVS
   \<and> CopyRevlog ''data/foo.i''
       \<in> set (upgrade_revlogs sample_revlogs sample_datafiles {''re-delta-parent''}
                {UPGRADE_CHANGELOG})
   \<and> (\<exists>dst'. copyrevlog sample_indexfile sample_datafile sample_src_store sample_dst_store
                 ''data/foo.i'' = Inr dst'
          \<and> rs_files dst' ''data/foo.i'' = Some [1, 2, 3]
          \<and> rs_files dst' ''data/foo.d'' = Some [4, 5])"
    unfolding i s(2,3) Let_def by simp
  have z: "count_revisions sample_empty_revlogs sample_datafiles = 0"
    by (simp add: sample_datafiles_def sample_empty_revlogs_def)
  from upgrade_clones_or_copies [of "{''re-delta-parent''}" sample_empty_revlogs
      sample_datafiles "''data/foo.i''" "''data/foo.i''" 64 "{UPGRADE_CHANGELOG}"
      sample_src_store sample_indexfile sample_datafile sample_dst_store] z
  have "upgrade_revlogs sample_empty_revlogs sample_datafiles {''re-delta-parent''}
       {UPGRADE_CHANGELOG} = []"
    by blast
  with a show ?thesis by blast
qed

text \<open>
  The claim as stated fails when the revlogs of the store hold no revision:
  \<^verbatim>\<open>_clonerevlogs\<close> returns at \<^verbatim>\<open>if not revcount: return\<close> and the revlog that
  the filter does not select is neither copied nor cloned.
\<close>

theorem upgrade_copies_unselected_counterexample:
  "(''data/foo.i'', ''data/foo.i'', 0) \<in> set [(''data/foo.i'', ''data/foo.i'', 0)]
   \<and> \<not> endswith ''data/foo.i'' ''.d''
   \<and> \<not> matchrevlog {UPGRADE_CHANGELOG} ''data/foo.i''
   \<and> CopyRevlog ''data/foo.i''
       \<notin> set (upgrade_revlogs sample_empty_revlogs [(''data/foo.i'', ''data/foo.i'', 0)] {}
                {UPGRADE_CHANGELOG})
   \<and> upgrade_revlogs sample_empty_revlogs [(''data/foo.i'', ''data/foo.i'', 0)] {}
       {UPGRADE_CHANGELOG} = []"
  using sample_match
  by (simp add: upgrade_revlogs_def clonerevlogs_def sample_empty_revlogs_def)


section \<open>Writing the docket\<close>

lemma py_slice_nonneg:
  "0 \<le> a \<Longrightarrow> 0 \<le> b \<Longrightarrow> py_slice xs a b = take (nat (b - a)) (drop (nat a) xs)"
  by (auto simp: py_slice_def Let_def min_def)

lemma be_decode_L: "fits_L v \<Longrightarrow> be_decode (be_encode 4 v) = v"
  by (simp add: be_decode_encode fits_L_def)

lemma S_HEADER_roundtrip:
  assumes "S_HEADER_pack (Some vh, h1, h2, h3, h4, h5, h6, Some c) = Inr bs"
  shows "S_HEADER_unpack bs = Inr (Some vh, h1, h2, h3, h4, h5, h6, Some c)"
    and "int (length bs) = S_HEADER_size"
  using assms
  by (auto simp: S_HEADER_pack_def S_HEADER_unpack_def S_HEADER_size_def be_decode_L
      be_decode_single split: if_splits)

lemma serialize_header:
  assumes "serialize d pending = Inr s"
  shows "\<exists>vh iu du c. d_version_header d = Some vh \<and> d_index_uuid d = Some iu
      \<and> d_data_uuid d = Some du \<and> d_default_compression_header d = Some c
      \<and> S_HEADER_unpack (py_slice s 0 S_HEADER_size)
         = Inr (Some vh, int (length iu), int (length du),
                (if pending then d_initial_index_end d else d_index_end d), d_index_end d,
                (if pending then d_initial_data_end d else d_data_end d), d_data_end d,
                Some c)
      \<and> (if pending then d_initial_data_end d else d_data_end d) \<le> d_data_end d"
proof -
  let ?oi = "if pending then d_initial_index_end d else d_index_end d"
  let ?od = "if pending then d_initial_data_end d else d_data_end d"
  from assms obtain iu du header where
    o: "?od \<le> d_data_end d" and iu: "d_index_uuid d = Some iu" and du: "d_data_uuid d = Some du"
    and p: "S_HEADER_pack (d_version_header d, int (length iu), int (length du), ?oi,
              d_index_end d, ?od, d_data_end d, d_default_compression_header d) = Inr header"
    and s: "s = header @ iu @ du"
    by (auto simp: serialize_def Let_def split: if_splits option.splits sum.splits)
  from p obtain vh c where vh: "d_version_header d = Some vh"
    and c: "d_default_compression_header d = Some c"
    by (auto simp: S_HEADER_pack_def split: option.splits)
  note r = S_HEADER_roundtrip [OF p [unfolded vh c]]
  from r(2) have "py_slice s 0 S_HEADER_size = header"
    by (simp add: py_slice_nonneg s S_HEADER_size_def)
  with r(1) o iu du vh c show ?thesis by simp
qed

lemma serialized_ends_serialize:
  assumes "serialize d pending = Inr s"
  shows "serialized_ends s =
     Some (if pending then d_initial_index_end d else d_index_end d, d_index_end d,
           if pending then d_initial_data_end d else d_data_end d, d_data_end d)"
  using serialize_header [OF assms] by (auto simp: serialized_ends_def)












section \<open>The order of the docket's ends\<close>

lemma sample_serialize_stripped:
  "serialize (set_index_end sample_docket 64) True = Inr sample_serialized"
  by (simp add: serialize_def set_index_end_def sample_docket_def sample_uuid_def
      S_HEADER_pack_def fits_L_def fits_B_def sample_serialized_def eval_nat_numeral)

lemma sample_serialized_ends:
  "serialized_ends sample_serialized = Some (128, 64, 10, 10)"
  using serialized_ends_serialize [OF sample_serialize_stripped]
  by (simp add: set_index_end_def sample_docket_def)

text \<open>
  C5, as amended. The constructor returns a docket only when the given official index
  end is at most the pending index end and the official data end at most the pending
  data end, and fails with an assertion error otherwise. When \<^verbatim>\<open>_serialize\<close>
  returns bytes, the official data end in them is at most the pending data end, and
  outside the pending mode the official index end is at most the pending index end. A
  write of a dirty docket that is not read-only fails with an assertion error, and
  produces nothing, when the official data end would exceed the pending data end.
\<close>

theorem docket_ends_ordered:
  "(RevlogDocket_init revlog use_pending vh iu du index_end pending_index_end data_end
        pending_data_end c = Inr d0 \<longrightarrow>
      d_initial_index_end d0 \<le> d_pending_index_end d0
      \<and> d_initial_data_end d0 \<le> d_pending_data_end d0)
   \<and> (\<not> (index_end \<le> pending_index_end \<and> data_end \<le> pending_data_end) \<longrightarrow>
        RevlogDocket_init revlog use_pending vh iu du index_end pending_index_end data_end
          pending_data_end c = Inl AssertionError)
   \<and> (serialize d pending = Inr s \<longrightarrow>
        (\<exists>oi pi od pd. serialized_ends s = Some (oi, pi, od, pd) \<and> od \<le> pd
           \<and> (\<not> pending \<longrightarrow> oi \<le> pi)))
   \<and> (d_dirty d \<and> \<not> d_read_only d \<and> pending \<and> d_data_end d < d_initial_data_end d \<longrightarrow>
        docket_write d st pending stripping = Inl AssertionError)"
proof (intro conjI impI)
  assume "RevlogDocket_init revlog use_pending vh iu du index_end pending_index_end data_end
        pending_data_end c = Inr d0"
  then have "index_end \<le> pending_index_end \<and> data_end \<le> pending_data_end
      \<and> d_initial_index_end d0 = index_end \<and> d_pending_index_end d0 = pending_index_end
      \<and> d_initial_data_end d0 = data_end \<and> d_pending_data_end d0 = pending_data_end"
    by (auto simp: RevlogDocket_init_def split: if_splits)
  then show "d_initial_index_end d0 \<le> d_pending_index_end d0"
    and "d_initial_data_end d0 \<le> d_pending_data_end d0"
    by simp_all
next
  assume "\<not> (index_end \<le> pending_index_end \<and> data_end \<le> pending_data_end)"
  then show "RevlogDocket_init revlog use_pending vh iu du index_end pending_index_end data_end
          pending_data_end c = Inl AssertionError"
    by (auto simp: RevlogDocket_init_def)
next
  assume a: "serialize d pending = Inr s"
  from serialize_header [OF a]
  have "(if pending then d_initial_data_end d else d_data_end d) \<le> d_data_end d"
    by blast
  with serialized_ends_serialize [OF a]
  show "\<exists>oi pi od pd. serialized_ends s = Some (oi, pi, od, pd) \<and> od \<le> pd
           \<and> (\<not> pending \<longrightarrow> oi \<le> pi)"
    by simp
next
  assume "d_dirty d \<and> \<not> d_read_only d \<and> pending \<and> d_data_end d < d_initial_data_end d"
  then show "docket_write d st pending stripping = Inl AssertionError"
    by (simp add: docket_write_def serialize_def Let_def)
qed

theorem docket_ends_ordered_witness:
  "RevlogDocket_init (''00changelog'', ''00changelog.i'') False (Some 2) (Some sample_uuid)
     (Some sample_uuid) 128 128 10 10 (Some [117]) = Inr sample_docket
   \<and> d_initial_index_end sample_docket \<le> d_pending_index_end sample_docket
   \<and> d_initial_data_end sample_docket \<le> d_pending_data_end sample_docket
   \<and> RevlogDocket_init (''00changelog'', ''00changelog.i'') False (Some 2) (Some sample_uuid)
       (Some sample_uuid) 128 64 10 10 (Some [117]) = Inl AssertionError
   \<and> (\<exists>oi pi od pd. serialized_ends sample_serialized = Some (oi, pi, od, pd) \<and> od \<le> pd)
   \<and> docket_write (set_data_end sample_docket 5) sample_state True False = Inl AssertionError"
proof -
  have i: "RevlogDocket_init (''00changelog'', ''00changelog.i'') False (Some 2)
      (Some sample_uuid) (Some sample_uuid) 128 128 10 10 (Some [117]) = Inr sample_docket"
    by (simp add: RevlogDocket_init_def sample_docket_def)
  have n: "\<not> ((128::int) \<le> 64 \<and> (10::int) \<le> 10)" by simp
  have w: "d_dirty (set_data_end sample_docket 5) \<and> \<not> d_read_only (set_data_end sample_docket 5)
      \<and> True \<and> d_data_end (set_data_end sample_docket 5)
          < d_initial_data_end (set_data_end sample_docket 5)"
    by (simp add: set_data_end_def sample_docket_def)
  note t1 = docket_ends_ordered [of "(''00changelog'', ''00changelog.i'')" False "Some 2"
      "Some sample_uuid" "Some sample_uuid" 128 128 10 10 "Some [117]" sample_docket
      "set_index_end sample_docket 64" True sample_serialized sample_state False]
  note t2 = docket_ends_ordered [of "(''00changelog'', ''00changelog.i'')" False "Some 2"
      "Some sample_uuid" "Some sample_uuid" 128 64 10 10 "Some [117]" sample_docket
      "set_data_end sample_docket 5" True sample_serialized sample_state False]
  from t1 i sample_serialize_stripped
  have "d_initial_index_end sample_docket \<le> d_pending_index_end sample_docket
      \<and> d_initial_data_end sample_docket \<le> d_pending_data_end sample_docket
      \<and> (\<exists>oi pi od pd. serialized_ends sample_serialized = Some (oi, pi, od, pd) \<and> od \<le> pd)"
    by blast
  moreover from t2 n w
  have "RevlogDocket_init (''00changelog'', ''00changelog.i'') False (Some 2) (Some sample_uuid)
       (Some sample_uuid) 128 64 10 10 (Some [117]) = Inl AssertionError
     \<and> docket_write (set_data_end sample_docket 5) sample_state True False = Inl AssertionError"
    by blast
  ultimately show ?thesis using i by blast
qed

text \<open>
  The claim as stated fails twice. A write whose official data end would exceed the
  pending one fails with an assertion error, not a Programming error; and in pending
  mode \<^verbatim>\<open>_serialize\<close> checks the data ends only, so that after the index end of
  a docket has been set below the end it was constructed with, the serialized official
  index end, 128, exceeds the serialized pending index end, 64.
\<close>

theorem docket_ends_ordered_counterexample:
  "docket_write (set_data_end sample_docket 5) sample_state True False = Inl AssertionError
   \<and> Inl AssertionError
       \<noteq> (Inl ProgrammingError :: error + bool \<times> docket \<times> store_state)
   \<and> serialize (set_index_end sample_docket 64) True = Inr sample_serialized
   \<and> serialized_ends sample_serialized = Some (128, 64, 10, 10)
   \<and> \<not> (128::int) \<le> 64"
proof -
  have "docket_write (set_data_end sample_docket 5) sample_state True False
      = Inl AssertionError"
    by (simp add: docket_write_def serialize_def set_data_end_def sample_docket_def Let_def)
  with sample_serialize_stripped sample_serialized_ends show ?thesis by simp
qed


section \<open>Reading an entry\<close>

lemma sample_record_lengths:
  "length sample_record0 = 64" "length sample_record1 = 64"
  by (simp_all add: sample_record0_def sample_record1_def)

lemma sample_unpack0:
  "unpack_entry V1 sample_record0 = Inr (sample_entry0\<lparr>offset_flags := 281479271677955\<rparr>)"
  by (simp add: unpack_entry_def unpack_entry_v1_def INDEX_ENTRY_V1_unpack_def
      INDEX_ENTRY_V1_size_def sample_record0_def sample_entry0_def be_decode_def
      be_decode_signed_def Let_def)

lemma sample_unpack1: "unpack_entry V1 sample_record1 = Inr sample_entry1"
  by (simp add: unpack_entry_def unpack_entry_v1_def INDEX_ENTRY_V1_unpack_def
      INDEX_ENTRY_V1_size_def sample_record1_def sample_entry1_def be_decode_def
      be_decode_signed_def Let_def)


lemma sample_entry_data:
  "entry_data sample_index 0 = Inr sample_record0"
  "entry_data sample_index 1 = Inr sample_record1"
  by (simp_all add: entry_data_def sample_index_def calculate_index_def entry_size_def
      INDEX_ENTRY_V1_size_def py_slice_def sample_index_data_def sample_record_lengths)

lemma mask_offset_flags:
  "drop_bit 16 (offset_type 0 (gettype q)) = 0"
  "gettype (offset_type 0 (gettype q)) = gettype q"
  "offset_type 0 (gettype q) = q AND 0xFFFF"
proof -
  show m: "offset_type 0 (gettype q) = q AND 0xFFFF"
    by (simp add: offset_type_def gettype_def)
  have "drop_bit 16 (q AND 65535) = drop_bit 16 q AND drop_bit 16 (65535::int)"
    by (simp only: drop_bit_and)
  also have "\<dots> = 0"
    by (simp add: drop_bit_eq_div)
  finally show "drop_bit 16 (offset_type 0 (gettype q)) = 0"
    using m by simp
  show "gettype (offset_type 0 (gettype q)) = gettype q"
    unfolding m by (simp add: gettype_def and.assoc)
qed


section \<open>The node map and the null revision\<close>

lemma set_py_range: "set (py_range a b) = {a ..< b}"
proof -
  have "set (py_range a b) = (\<lambda>k. a + int k) ` {0 ..< nat (b - a)}"
    by (simp add: py_range_def)
  also have "\<dots> = {a ..< b}"
  proof (rule set_eqI)
    fix x
    show "x \<in> (\<lambda>k. a + int k) ` {0 ..< nat (b - a)} \<longleftrightarrow> x \<in> {a ..< b}"
    proof
      assume "x \<in> (\<lambda>k. a + int k) ` {0 ..< nat (b - a)}"
      then show "x \<in> {a ..< b}" by auto
    next
      assume x: "x \<in> {a ..< b}"
      then have "x = a + int (nat (x - a))" "nat (x - a) \<in> {0 ..< nat (b - a)}" by auto
      then show "x \<in> (\<lambda>k. a + int k) ` {0 ..< nat (b - a)}" by (rule image_eqI)
    qed
  qed
  finally show ?thesis .
qed

lemma nodemap_loop_total:
  "(\<forall>r \<in> set rs. \<exists>e. getitem ix r = Inr e) \<Longrightarrow> \<exists>nm'. nodemap_loop ix rs nm = Inr nm'"
proof (induction rs arbitrary: nm)
  case Nil
  then show ?case by simp
next
  case (Cons r rs)
  then obtain e where "getitem ix r = Inr e" by auto
  with Cons show ?case by simp
qed

lemma nodemap_loop_other:
  "nodemap_loop ix rs nm = Inr nm' \<Longrightarrow>
   (\<forall>r \<in> set rs. \<forall>e. getitem ix r = Inr e \<longrightarrow> node e \<noteq> n) \<Longrightarrow> nm' n = nm n"
proof (induction rs arbitrary: nm)
  case Nil
  then show ?case by simp
next
  case (Cons r rs)
  from Cons.prems(1) obtain e where e: "getitem ix r = Inr e"
    and l: "nodemap_loop ix rs (nm(node e \<mapsto> r)) = Inr nm'"
    by (auto split: sum.splits)
  from Cons.prems(2) e have "node e \<noteq> n" by simp
  moreover from Cons.IH [OF l] Cons.prems(2) have "nm' n = (nm(node e \<mapsto> r)) n" by simp
  ultimately show ?case by simp
qed

lemma compute_nodemap_total:
  "entries_decode ix \<Longrightarrow> \<exists>nm. compute_nodemap ix = Inr nm"
  unfolding compute_nodemap_def
  by (rule nodemap_loop_total) (simp add: set_py_range entries_decode_def)

lemma compute_nodemap_nullid:
  assumes "compute_nodemap ix = Inr nm" "no_null_node ix"
  shows "nm nullid = Some (- 1)"
proof -
  have "nm nullid = [nullid \<mapsto> nullrev] nullid"
    using assms(1) unfolding compute_nodemap_def
  proof (rule nodemap_loop_other)
    show "\<forall>r \<in> set (py_range 0 (index_len ix)). \<forall>e. getitem ix r = Inr e \<longrightarrow> node e \<noteq> nullid"
      using assms(2) by (auto simp: set_py_range no_null_node_def)
  qed
  then show ?thesis by (simp add: nullrev_def)
qed

lemma get_nodemap_valid:
  assumes "nodemap_valid ix" "compute_nodemap ix = Inr nm"
  shows "get_nodemap ix = Inr (nm, ix\<lparr>ix_nodemap := Some nm\<rparr>)"
  using assms by (auto simp: get_nodemap_def nodemap_valid_def split: option.splits)

text \<open>
  C9, as amended. In an index whose entries all decode, none of them with the null node,
  and whose node map cache, if filled, is the computed map, \<^verbatim>\<open>rev\<close> and
  \<^verbatim>\<open>get_rev\<close> of the all-zero null node give \<open>-1\<close> and \<^verbatim>\<open>has_node\<close> gives
  true. In every index, the item at \<open>-1\<close> is the null entry: offset and lengths 0, base,
  link and both parents \<open>-1\<close>, the all-zero node; and every integer below \<open>-1\<close> or from
  the length on raises an IndexError.
\<close>

theorem null_node_and_null_item:
  "(nodemap_valid ix \<and> entries_decode ix \<and> no_null_node ix \<longrightarrow>
      (\<exists>ix'. rev_of ix nullid = Inr (- 1, ix') \<and> get_rev ix nullid = Inr (Some (- 1), ix')
             \<and> has_node ix nullid = Inr (True, ix')))
   \<and> getitem ix (- 1) = Inr null_item
   \<and> offset_flags null_item = 0 \<and> comp_len null_item = 0 \<and> uncomp_len null_item = 0
   \<and> base_rev null_item = - 1 \<and> link_rev null_item = - 1
   \<and> p1_rev null_item = - 1 \<and> p2_rev null_item = - 1
   \<and> node null_item = replicate 20 0 \<and> nullid = replicate 20 0
   \<and> sidedata_offset null_item = 0 \<and> sidedata_length null_item = 0
   \<and> (i \<noteq> - 1 \<and> (i < 0 \<or> index_len ix \<le> i) \<longrightarrow> getitem ix i = Inl IndexError)"
proof (intro conjI impI)
  assume a: "nodemap_valid ix \<and> entries_decode ix \<and> no_null_node ix"
  then obtain nm where nm: "compute_nodemap ix = Inr nm"
    using compute_nodemap_total by blast
  with a have n: "nm nullid = Some (- 1)"
    using compute_nodemap_nullid by blast
  from a nm have "get_nodemap ix = Inr (nm, ix\<lparr>ix_nodemap := Some nm\<rparr>)"
    using get_nodemap_valid by blast
  with n show "\<exists>ix'. rev_of ix nullid = Inr (- 1, ix') \<and> get_rev ix nullid = Inr (Some (- 1), ix')
             \<and> has_node ix nullid = Inr (True, ix')"
    by (simp add: rev_of_def get_rev_def has_node_def)
next
  assume "i \<noteq> - 1 \<and> (i < 0 \<or> index_len ix \<le> i)"
  then show "getitem ix i = Inl IndexError"
    by (auto simp: getitem_def check_index_def)
qed (simp_all add: getitem_def null_item_def nullid_def)

lemma sample_index_entries:
  "getitem sample_index 0 = Inr sample_entry0" "getitem sample_index 1 = Inr sample_entry1"
proof -
  have l: "ix_lgt sample_index = 2" "ix_extra sample_index = []" "ix_version sample_index = V1"
    by (simp_all add: sample_index_def)
  show "getitem sample_index 0 = Inr sample_entry0"
    by (simp add: getitem_def check_index_def index_len_def sample_entry_data l
        sample_unpack0 mask_offset_flags(3) sample_entry0_def)
  show "getitem sample_index 1 = Inr sample_entry1"
    by (simp add: getitem_def check_index_def index_len_def sample_entry_data l
        sample_unpack1)
qed

lemma sample_index_revs:
  "0 \<le> r \<Longrightarrow> r < index_len sample_index \<Longrightarrow> r = 0 \<or> r = 1"
  by (auto simp: sample_index_def index_len_def)

lemma sample_index_wf:
  "nodemap_valid sample_index" "entries_decode sample_index" "no_null_node sample_index"
  "nodes_distinct sample_index"
proof -
  show "nodemap_valid sample_index"
    by (simp add: nodemap_valid_def sample_index_def)
  show "entries_decode sample_index"
    unfolding entries_decode_def using sample_index_revs sample_index_entries by blast
  have n: "node sample_entry0 = replicate 20 7" "node sample_entry1 = replicate 20 9"
    by (simp_all add: sample_entry0_def sample_entry1_def)
  show "no_null_node sample_index"
    unfolding no_null_node_def
  proof (intro allI impI)
    fix r e
    assume a: "0 \<le> r \<and> r < index_len sample_index \<and> getitem sample_index r = Inr e"
    then have "r = 0 \<or> r = 1" using sample_index_revs by blast
    with a sample_index_entries n show "node e \<noteq> nullid"
      by (auto simp: nullid_def)
  qed
  show "nodes_distinct sample_index"
    unfolding nodes_distinct_def
  proof (intro allI impI)
    fix r s e f
    assume a: "0 \<le> r \<and> r < index_len sample_index \<and> 0 \<le> s \<and> s < index_len sample_index
        \<and> getitem sample_index r = Inr e \<and> getitem sample_index s = Inr f \<and> node e = node f"
    then have "r = 0 \<or> r = 1" "s = 0 \<or> s = 1" using sample_index_revs by blast+
    with a sample_index_entries n show "r = s"
      by auto
  qed
qed

theorem null_node_and_null_item_witness:
  "(\<exists>ix'. rev_of sample_index nullid = Inr (- 1, ix'))
   \<and> getitem sample_index (- 1) = Inr null_item
   \<and> getitem sample_index 2 = Inl IndexError
   \<and> getitem sample_index (- 2) = Inl IndexError"
proof -
  have "(2::int) \<noteq> - 1 \<and> ((2::int) < 0 \<or> index_len sample_index \<le> 2)"
    "(- 2::int) \<noteq> - 1 \<and> ((- 2::int) < 0 \<or> index_len sample_index \<le> - 2)"
    by (simp_all add: sample_index_def index_len_def)
  with null_node_and_null_item [of sample_index 2] null_node_and_null_item [of sample_index "- 2"]
    sample_index_wf
  show ?thesis by blast
qed

text \<open>
  The claim as stated fails: nothing keeps an entry with the null node out of an index.
  Appending the null entry itself to an empty index stores it as revision 0, and the
  null node then resolves to revision 0. The cache can also lose the null node, so that
  the condition on the cache is needed: when a look-up has filled the cache of the empty
  index, the null entry is appended and revision 0 is stripped again, the index is empty
  and the null node is unknown to \<^verbatim>\<open>rev\<close>.
\<close>

theorem null_node_counterexample:
  "IndexObject_init V1 [] = Inr sample_empty_index
   \<and> index_append sample_empty_index null_item = Inr sample_null_index
   \<and> getitem sample_null_index 0 = Inr null_item
   \<and> node null_item = nullid
   \<and> map_sum id fst (rev_of sample_null_index nullid) = Inr 0
   \<and> has_node sample_empty_index (replicate 20 7) = Inr (False, sample_cached_empty_index)
   \<and> index_append sample_cached_empty_index null_item = Inr sample_cached_null_index
   \<and> delitem sample_cached_null_index (SliceKey (Some 0) (Some (- 1)) None)
       = Inr sample_stale_index
   \<and> index_len sample_stale_index = 0
   \<and> rev_of sample_stale_index nullid = Inl RevlogError
   \<and> get_rev sample_stale_index nullid = Inr (None, sample_stale_index)
   \<and> has_node sample_stale_index nullid = Inr (False, sample_stale_index)"
proof -
  have i: "IndexObject_init V1 [] = Inr sample_empty_index"
    by (simp add: IndexObject_init_def sample_empty_index_def entry_size_def
        INDEX_ENTRY_V1_size_def)
  have p: "pack_entry V1 null_item = Inr sample_null_record"
    by (simp add: pack_entry_def pack_entry_v1_def null_item_def INDEX_ENTRY_V1_pack_def
        fits_Q_def fits_i_def nullid_def pack_s_def pad_def sample_null_record_def
        be_encode_numeral replicate_numeral)
  then have a: "index_append sample_empty_index null_item = Inr sample_null_index"
    by (simp add: index_append_def sample_empty_index_def sample_null_index_def)
  have l: "length sample_null_record = 64" "node null_item = nullid"
    "sidedata_offset null_item = 0" "sidedata_length null_item = 0"
    "length nullid = 20"
    by (simp_all add: sample_null_record_def null_item_def nullid_def)
  have u: "unpack_entry V1 sample_null_record = Inr null_item"
    by (simp add: unpack_entry_def unpack_entry_v1_def INDEX_ENTRY_V1_unpack_def
        INDEX_ENTRY_V1_size_def sample_null_record_def null_item_def nullid_def be_decode_def
        be_decode_signed_def Let_def replicate_numeral)
  have g: "getitem sample_null_index 0 = Inr null_item"
    by (simp add: getitem_def check_index_def index_len_def entry_data_def py_index_def
        sample_null_index_def sample_empty_index_def u)
  have c: "compute_nodemap sample_null_index = Inr [nullid \<mapsto> 0]"
  proof -
    have "index_len sample_null_index = 1"
      by (simp add: index_len_def sample_null_index_def sample_empty_index_def)
    then show ?thesis
      by (simp add: compute_nodemap_def py_range_def g l(2) nullrev_def)
  qed
  have r: "map_sum id fst (rev_of sample_null_index nullid) = Inr 0"
  proof -
    have "ix_nodemap sample_null_index = None"
      by (simp add: sample_null_index_def sample_empty_index_def)
    then show ?thesis
      by (simp add: rev_of_def get_nodemap_def c)
  qed
  have h: "has_node sample_empty_index (replicate 20 7) = Inr (False, sample_cached_empty_index)"
  proof -
    have "compute_nodemap sample_empty_index = Inr [nullid \<mapsto> nullrev]"
      by (simp add: compute_nodemap_def py_range_def index_len_def sample_empty_index_def)
    moreover have "replicate 20 (7::byte) \<noteq> nullid"
      by (simp add: nullid_def replicate_numeral)
    ultimately show ?thesis
      by (simp add: has_node_def get_nodemap_def sample_empty_index_def
          sample_cached_empty_index_def)
  qed
  have b: "index_append sample_cached_empty_index null_item = Inr sample_cached_null_index"
    using p
    by (simp add: index_append_def sample_cached_empty_index_def sample_cached_null_index_def
        sample_empty_index_def index_len_def l(2))
  have g': "getitem sample_cached_null_index 0 = Inr null_item"
    by (simp add: getitem_def check_index_def index_len_def entry_data_def py_index_def
        sample_cached_null_index_def sample_empty_index_def u)
  have d: "delitem sample_cached_null_index (SliceKey (Some 0) (Some (- 1)) None)
       = Inr sample_stale_index"
  proof -
    have n: "index_len sample_cached_null_index = 1"
      "ix_nodemap sample_cached_null_index = Some [nullid \<mapsto> 0]"
      "ix_lgt sample_cached_null_index = 0"
      by (simp_all add: index_len_def sample_cached_null_index_def sample_empty_index_def)
    have st: "stripnodes sample_cached_null_index 0
        = Inr (sample_cached_null_index\<lparr>ix_nodemap := Some Map.empty\<rparr>)"
      by (simp add: stripnodes_def n py_range_def g' l(2))
    have "delitem sample_cached_null_index (SliceKey (Some 0) (Some (- 1)) None)
        = Inr (sample_cached_null_index\<lparr>ix_nodemap := Some Map.empty,
                 ix_extra := py_slice (ix_extra sample_cached_null_index) 0 0\<rparr>)"
      by (simp add: delitem_def check_index_def n st)
    also have "\<dots> = Inr sample_stale_index"
      by (simp add: py_slice_def sample_cached_null_index_def sample_stale_index_def
          sample_empty_index_def)
    finally show ?thesis .
  qed
  have s: "index_len sample_stale_index = 0"
    "rev_of sample_stale_index nullid = Inl RevlogError"
    "get_rev sample_stale_index nullid = Inr (None, sample_stale_index)"
    "has_node sample_stale_index nullid = Inr (False, sample_stale_index)"
    by (simp_all add: index_len_def rev_of_def get_rev_def has_node_def get_nodemap_def
        sample_stale_index_def sample_empty_index_def)
  from i a g l(2) r h b d s show ?thesis by simp
qed


section \<open>Rewriting the sidedata of an appended entry\<close>

lemma py_setitem_in_range:
  "0 \<le> i \<Longrightarrow> i < int (length xs) \<Longrightarrow> py_setitem xs i v = Inr (xs[nat i := v])"
  by (simp add: py_setitem_def)

lemma py_index_in_range:
  "0 \<le> i \<Longrightarrow> i < int (length xs) \<Longrightarrow> py_index xs i = Inr (xs ! nat i)"
  by (simp add: py_index_def)

lemma getitem_extra:
  assumes "0 \<le> ix_lgt ix" "ix_lgt ix \<le> r" "r < index_len ix"
  shows "getitem ix r = unpack_entry (ix_version ix) (ix_extra ix ! nat (r - ix_lgt ix))"
proof -
  from assms have i: "0 \<le> r - ix_lgt ix" "r - ix_lgt ix < int (length (ix_extra ix))"
    by (simp_all add: index_len_def)
  from assms have m: "\<not> (ix_lgt ix \<noteq> 0 \<and> r = 0)" "r \<noteq> - 1" by auto
  from assms have "entry_data ix r = Inr (ix_extra ix ! nat (r - ix_lgt ix))"
    by (simp add: entry_data_def py_index_in_range [OF i])
  with assms m show ?thesis
    by (auto simp: getitem_def check_index_def split: sum.splits)
qed

lemma getitem_extra_update_other:
  assumes "j \<noteq> r" "ix_lgt ix \<le> r" "r < index_len ix"
  shows "getitem (ix\<lparr>ix_extra := (ix_extra ix)[nat (r - ix_lgt ix) := new]\<rparr>) j = getitem ix j"
proof -
  let ?ix = "ix\<lparr>ix_extra := (ix_extra ix)[nat (r - ix_lgt ix) := new]\<rparr>"
  have l: "index_len ?ix = index_len ix"
    by (simp add: index_len_def)
  have c: "check_index ?ix j = check_index ix j"
    by (simp add: check_index_def l)
  have ed: "entry_data ?ix j = entry_data ix j" if j: "0 \<le> j" "j < index_len ix"
  proof (cases "ix_lgt ix \<le> j")
    case True
    with j have i: "0 \<le> j - ix_lgt ix" "j - ix_lgt ix < int (length (ix_extra ix))"
      by (simp_all add: index_len_def)
    from True assms(1,2) have "nat (j - ix_lgt ix) \<noteq> nat (r - ix_lgt ix)" by auto
    with True i show ?thesis
      by (simp add: entry_data_def py_index_def)
  next
    case False
    then show ?thesis
      by (auto simp: entry_data_def calculate_index_def split: sum.splits)
  qed
  show ?thesis
  proof (cases "0 \<le> j \<and> j < index_len ix")
    case True
    with ed have "entry_data ?ix j = entry_data ix j" by simp
    then show ?thesis by (simp add: getitem_def c cong: sum.case_cong)
  next
    case False
    then have "j < 0 \<or> index_len ix \<le> j" by auto
    then show ?thesis by (auto simp: getitem_def check_index_def l)
  qed
qed

lemma replace_sidedata_info_result:
  assumes v: "ix_version ix = V2" and z: "0 \<le> ix_lgt ix"
    and rep: "replace_sidedata_info ix r sd_offset sd_length off_flags = Inr ix'"
  shows "ix_lgt ix \<le> r" "r < index_len ix"
    "\<exists>e new. getitem ix r = Inr e
       \<and> ix' = ix\<lparr>ix_extra := (ix_extra ix)[nat (r - ix_lgt ix) := new]\<rparr>
       \<and> getitem ix' r = Inr (e\<lparr>offset_flags := off_flags, sidedata_offset := sd_offset,
                                 sidedata_length := sd_length\<rparr>)"
    "j \<noteq> r \<Longrightarrow> getitem ix' j = getitem ix j"
proof -
  from rep v have r0: "0 \<le> r" and rl: "r < index_len ix" and lg: "ix_lgt ix \<le> r"
    by (auto simp: replace_sidedata_info_def check_index_def split: if_splits)
  show "ix_lgt ix \<le> r" "r < index_len ix" by (rule lg, rule rl)
  let ?k = "nat (r - ix_lgt ix)"
  from rep v r0 rl lg obtain e new extra' where
    e: "getitem ix r = Inr e"
    and p: "pack_entry_v2 (e\<lparr>offset_flags := off_flags, sidedata_offset := sd_offset,
              sidedata_length := sd_length\<rparr>) = Inr new"
    and s: "py_setitem (ix_extra ix) (r - ix_lgt ix) new = Inr extra'"
    and i: "ix' = ix\<lparr>ix_extra := extra'\<rparr>"
    by (auto simp: replace_sidedata_info_def check_index_def split: if_splits sum.splits)
  from lg rl have k: "0 \<le> r - ix_lgt ix" "r - ix_lgt ix < int (length (ix_extra ix))"
    by (simp_all add: index_len_def)
  from s have x: "extra' = (ix_extra ix)[?k := new]"
    by (simp add: py_setitem_in_range [OF k])
  from e have "unpack_entry_v2 (ix_extra ix ! ?k) = Inr e"
    using getitem_extra [OF z lg rl] v by (simp add: unpack_entry_def)
  note sh = unpack_entry_v2_shape [OF this]
  let ?e = "e\<lparr>offset_flags := off_flags, sidedata_offset := sd_offset,
              sidedata_length := sd_length\<rparr>"
  have u: "unpack_entry_v2 new = Inr ?e"
    by (rule pack_entry_v2_roundtrip(1) [OF _ _ _ _ _ p]) (simp_all add: sh)
  have l: "index_len ix' = index_len ix" "ix_lgt ix' = ix_lgt ix" "ix_version ix' = V2"
    by (simp_all add: i x index_len_def v)
  have "getitem ix' r = unpack_entry (ix_version ix') (ix_extra ix' ! ?k)"
    using getitem_extra [of ix' r] z lg rl l by simp
  also have "\<dots> = Inr ?e"
    using k u by (simp add: i x v unpack_entry_def)
  finally have g: "getitem ix' r = Inr ?e" .
  from e i x g show "\<exists>e new. getitem ix r = Inr e
       \<and> ix' = ix\<lparr>ix_extra := (ix_extra ix)[nat (r - ix_lgt ix) := new]\<rparr>
       \<and> getitem ix' r = Inr (e\<lparr>offset_flags := off_flags, sidedata_offset := sd_offset,
                                 sidedata_length := sd_length\<rparr>)"
    by blast
  show "getitem ix' j = getitem ix j" if "j \<noteq> r"
    unfolding i x by (rule getitem_extra_update_other [OF that lg rl])
qed

lemma be_decode_bounds: "0 \<le> be_decode bs \<and> be_decode bs < 256 ^ length bs"
proof (induction bs rule: rev_induct)
  case Nil
  then show ?case by (simp add: be_decode_def)
next
  case (snoc b bs)
  have "0 \<le> uint b" "uint b < 256"
    using uint_bounded [of b] by simp_all
  with snoc show ?case
    by (simp add: be_decode_snoc)
qed

lemma be_decode_fits_Q: "length bs = 8 \<Longrightarrow> fits_Q (be_decode bs)"
  using be_decode_bounds [of bs] by (simp add: fits_Q_def)

lemma be_decode_signed_fits_i: "length bs = 4 \<Longrightarrow> fits_i (be_decode_signed bs)"
  using be_decode_bounds [of bs] by (simp add: fits_i_def be_decode_signed_def Let_def)

lemma unpack_entry_v2_fits:
  assumes "unpack_entry_v2 data = Inr e"
  shows "fits_Q (offset_flags e)" "fits_i (comp_len e)" "fits_i (uncomp_len e)"
    "fits_i (base_rev e)" "fits_i (link_rev e)" "fits_i (p1_rev e)" "fits_i (p2_rev e)"
  using assms
  by (auto simp: unpack_entry_v2_def INDEX_ENTRY_V2_unpack_def INDEX_ENTRY_V2_size_def
      Let_def be_decode_fits_Q be_decode_signed_fits_i split: if_splits)

lemma replace_sidedata_info_returns:
  assumes v: "ix_version ix = V2" and z: "0 \<le> ix_lgt ix"
    and lg: "ix_lgt ix \<le> r" and rl: "r < index_len ix"
    and e: "getitem ix r = Inr e"
    and f: "fits_Q off_flags" "fits_Q sd_offset" "fits_i sd_length"
  shows "\<exists>ix'. replace_sidedata_info ix r sd_offset sd_length off_flags = Inr ix'"
proof -
  let ?e = "e\<lparr>offset_flags := off_flags, sidedata_offset := sd_offset,
              sidedata_length := sd_length\<rparr>"
  from e have "unpack_entry_v2 (ix_extra ix ! nat (r - ix_lgt ix)) = Inr e"
    using getitem_extra [OF z lg rl] v by (simp add: unpack_entry_def)
  note ft = unpack_entry_v2_fits [OF this]
  have "\<exists>bs. pack_entry V2 ?e = Inr bs"
    unfolding pack_entry_v2_succeeds using ft f by simp
  then obtain new where p: "pack_entry_v2 ?e = Inr new"
    by (auto simp: pack_entry_def)
  from lg rl have k: "0 \<le> r - ix_lgt ix" "r - ix_lgt ix < int (length (ix_extra ix))"
    by (simp_all add: index_len_def)
  from z lg have "0 \<le> r" by simp
  with v rl lg e p show ?thesis
    by (simp add: replace_sidedata_info_def check_index_def py_setitem_in_range [OF k])
qed

text \<open>
  C10, as amended. On a v2 index, \<^verbatim>\<open>replace_sidedata_info\<close> raises a KeyError when
  \<open>rev\<close> is negative or is a revision of the on-disk part, and an IndexError when
  \<open>rev\<close> is not a revision of the index. Whenever it returns, \<open>rev\<close> is a revision
  appended in memory, the entry read back at \<open>rev\<close> is the former one with
  \<^verbatim>\<open>offset_flags\<close>, the sidedata offset and the sidedata length replaced by the
  arguments, only that record of \<^verbatim>\<open>_extra\<close> has changed, and every other index
  reads as before. It returns whenever \<open>rev\<close> is such a revision, its entry decodes,
  and the three arguments fit their fields.
\<close>

theorem replace_sidedata_info_rewrites:
  "ix_version ix = V2 \<and> 0 \<le> ix_lgt ix \<longrightarrow>
     (r < 0 \<longrightarrow> replace_sidedata_info ix r sd_offset sd_length off_flags = Inl KeyError)
   \<and> (0 \<le> r \<and> index_len ix \<le> r \<longrightarrow>
        replace_sidedata_info ix r sd_offset sd_length off_flags = Inl IndexError)
   \<and> (0 \<le> r \<and> r < index_len ix \<and> r < ix_lgt ix \<longrightarrow>
        replace_sidedata_info ix r sd_offset sd_length off_flags = Inl KeyError)
   \<and> (replace_sidedata_info ix r sd_offset sd_length off_flags = Inr ix' \<longrightarrow>
        ix_lgt ix \<le> r \<and> r < index_len ix
        \<and> (\<exists>e new. getitem ix r = Inr e
              \<and> ix' = ix\<lparr>ix_extra := (ix_extra ix)[nat (r - ix_lgt ix) := new]\<rparr>
              \<and> getitem ix' r = Inr (e\<lparr>offset_flags := off_flags,
                     sidedata_offset := sd_offset, sidedata_length := sd_length\<rparr>))
        \<and> (\<forall>j. j \<noteq> r \<longrightarrow> getitem ix' j = getitem ix j))
   \<and> (ix_lgt ix \<le> r \<and> r < index_len ix \<and> (\<exists>e. getitem ix r = Inr e)
        \<and> fits_Q off_flags \<and> fits_Q sd_offset \<and> fits_i sd_length \<longrightarrow>
        (\<exists>ix'. replace_sidedata_info ix r sd_offset sd_length off_flags = Inr ix'))"
proof (intro impI)
  assume a: "ix_version ix = V2 \<and> 0 \<le> ix_lgt ix"
  then have v: "ix_version ix = V2" and z: "0 \<le> ix_lgt ix" by simp_all
  show "(r < 0 \<longrightarrow> replace_sidedata_info ix r sd_offset sd_length off_flags = Inl KeyError)
   \<and> (0 \<le> r \<and> index_len ix \<le> r \<longrightarrow>
        replace_sidedata_info ix r sd_offset sd_length off_flags = Inl IndexError)
   \<and> (0 \<le> r \<and> r < index_len ix \<and> r < ix_lgt ix \<longrightarrow>
        replace_sidedata_info ix r sd_offset sd_length off_flags = Inl KeyError)
   \<and> (replace_sidedata_info ix r sd_offset sd_length off_flags = Inr ix' \<longrightarrow>
        ix_lgt ix \<le> r \<and> r < index_len ix
        \<and> (\<exists>e new. getitem ix r = Inr e
              \<and> ix' = ix\<lparr>ix_extra := (ix_extra ix)[nat (r - ix_lgt ix) := new]\<rparr>
              \<and> getitem ix' r = Inr (e\<lparr>offset_flags := off_flags,
                     sidedata_offset := sd_offset, sidedata_length := sd_length\<rparr>))
        \<and> (\<forall>j. j \<noteq> r \<longrightarrow> getitem ix' j = getitem ix j))
   \<and> (ix_lgt ix \<le> r \<and> r < index_len ix \<and> (\<exists>e. getitem ix r = Inr e)
        \<and> fits_Q off_flags \<and> fits_Q sd_offset \<and> fits_i sd_length \<longrightarrow>
        (\<exists>ix'. replace_sidedata_info ix r sd_offset sd_length off_flags = Inr ix'))"
  proof (intro conjI impI allI)
    show "replace_sidedata_info ix r sd_offset sd_length off_flags = Inl KeyError" if "r < 0"
      using that v by (simp add: replace_sidedata_info_def)
    show "replace_sidedata_info ix r sd_offset sd_length off_flags = Inl IndexError"
      if "0 \<le> r \<and> index_len ix \<le> r"
      using that v by (simp add: replace_sidedata_info_def check_index_def)
    show "replace_sidedata_info ix r sd_offset sd_length off_flags = Inl KeyError"
      if "0 \<le> r \<and> r < index_len ix \<and> r < ix_lgt ix"
      using that v by (simp add: replace_sidedata_info_def check_index_def)
  next
    assume rep: "replace_sidedata_info ix r sd_offset sd_length off_flags = Inr ix'"
    note t = replace_sidedata_info_result [OF v z rep]
    show "ix_lgt ix \<le> r" by (rule t(1))
    show "r < index_len ix" by (rule t(2))
    show "\<exists>e new. getitem ix r = Inr e
              \<and> ix' = ix\<lparr>ix_extra := (ix_extra ix)[nat (r - ix_lgt ix) := new]\<rparr>
              \<and> getitem ix' r = Inr (e\<lparr>offset_flags := off_flags,
                     sidedata_offset := sd_offset, sidedata_length := sd_length\<rparr>)"
      by (rule t(3))
    show "getitem ix' j = getitem ix j" if "j \<noteq> r" for j
      using that by (rule t(4))
  next
    assume "ix_lgt ix \<le> r \<and> r < index_len ix \<and> (\<exists>e. getitem ix r = Inr e)
        \<and> fits_Q off_flags \<and> fits_Q sd_offset \<and> fits_i sd_length"
    then show "\<exists>ix'. replace_sidedata_info ix r sd_offset sd_length off_flags = Inr ix'"
      using replace_sidedata_info_returns [OF v z] by blast
  qed
qed

lemma sample_v2_unpack: "unpack_entry V2 sample_v2_record = Inr sample_v2_entry"
  by (simp add: unpack_entry_def unpack_entry_v2_def INDEX_ENTRY_V2_unpack_def
      INDEX_ENTRY_V2_size_def sample_v2_record_def sample_v2_entry_def be_decode_def
      be_decode_signed_def Let_def replicate_numeral)

lemma sample_v2_index_facts:
  "ix_version sample_v2_index = V2" "ix_lgt sample_v2_index = 0"
  "index_len sample_v2_index = 1" "ix_extra sample_v2_index = [sample_v2_record]"
  "ix_version sample_v2_empty_index = V2" "ix_lgt sample_v2_empty_index = 0"
  "index_len sample_v2_empty_index = 0"
  by (simp_all add: sample_v2_index_def sample_v2_empty_index_def index_len_def)

lemma sample_v2_getitem: "getitem sample_v2_index 0 = Inr sample_v2_entry"
  using getitem_extra [of sample_v2_index 0]
  by (simp add: sample_v2_index_facts sample_v2_unpack)

theorem replace_sidedata_info_rewrites_witness:
  "replace_sidedata_info sample_v2_index (- 1) 100 7 1 = Inl KeyError
   \<and> replace_sidedata_info sample_v2_index 1 100 7 1 = Inl IndexError
   \<and> (\<exists>ix'. replace_sidedata_info sample_v2_index 0 100 7 1 = Inr ix'
        \<and> getitem ix' 0 = Inr (sample_v2_entry\<lparr>offset_flags := 1, sidedata_offset := 100,
                                  sidedata_length := 7\<rparr>)
        \<and> getitem ix' 1 = getitem sample_v2_index 1)"
proof -
  have h: "ix_version sample_v2_index = V2 \<and> 0 \<le> ix_lgt sample_v2_index"
    by (simp add: sample_v2_index_facts)
  have a: "replace_sidedata_info sample_v2_index (- 1) 100 7 1 = Inl KeyError"
    using replace_sidedata_info_rewrites [of sample_v2_index "- 1" 100 7 1] h by simp
  have b: "replace_sidedata_info sample_v2_index 1 100 7 1 = Inl IndexError"
    using replace_sidedata_info_rewrites [of sample_v2_index 1 100 7 1] h
    by (simp add: sample_v2_index_facts)
  have f: "fits_Q 1" "fits_Q 100" "fits_i 7"
    by (simp_all add: fits_Q_def fits_i_def)
  obtain ix' where r: "replace_sidedata_info sample_v2_index 0 100 7 1 = Inr ix'"
    using replace_sidedata_info_rewrites [of sample_v2_index 0 100 7 1] h f sample_v2_getitem
    by (auto simp: sample_v2_index_facts)
  have "getitem ix' 0 = Inr (sample_v2_entry\<lparr>offset_flags := 1, sidedata_offset := 100,
                                  sidedata_length := 7\<rparr>)
      \<and> getitem ix' 1 = getitem sample_v2_index 1"
    using replace_sidedata_info_rewrites [of sample_v2_index 0 100 7 1 ix'] h r
      sample_v2_getitem
    by auto
  with a b r show ?thesis by blast
qed

text \<open>
  The claim as stated fails for a revision that the index does not hold, where the
  check of the index raises an IndexError and no KeyError, and for an argument that
  does not fit its field, where packing raises and nothing is rewritten.
\<close>

theorem replace_sidedata_info_counterexample:
  "replace_sidedata_info sample_v2_empty_index 0 100 7 1 = Inl IndexError
   \<and> getitem sample_v2_index 0 = Inr sample_v2_entry
   \<and> replace_sidedata_info sample_v2_index 0 100 2147483648 1 = Inl StructError"
proof -
  have "replace_sidedata_info sample_v2_empty_index 0 100 7 1 = Inl IndexError"
    by (simp add: replace_sidedata_info_def check_index_def sample_v2_index_facts)
  moreover have "replace_sidedata_info sample_v2_index 0 100 2147483648 1 = Inl StructError"
    by (simp add: replace_sidedata_info_def check_index_def sample_v2_index_facts
        sample_v2_getitem pack_entry_v2_def INDEX_ENTRY_V2_pack_def fits_i_def Let_def)
  ultimately show ?thesis using sample_v2_getitem by simp
qed


section \<open>The inline scan\<close>

lemma sample_looping_sizes:
  "length sample_looping_data = 64"
  "inline_scan_sizes V1 sample_looping_data 0 = Inr (- 64)"
proof -
  show "length sample_looping_data = 64"
    by (simp add: sample_looping_data_def)
  have "py_slice sample_looping_data 8 12 = [255, 255, 255, 192]"
    by (simp add: py_slice_def sample_looping_data_def)
  then show "inline_scan_sizes V1 sample_looping_data 0 = Inr (- 64)"
    by (simp add: inline_scan_sizes_def unpack_i_def be_decode_signed_def be_decode_def)
qed

lemma sample_looping_loop:
  "inline_scan_loop fuel V1 sample_looping_data None 0 count = None"
proof (induction fuel arbitrary: count)
  case 0
  then show ?case by simp
next
  case (Suc fuel)
  then show ?case
    by (simp add: sample_looping_sizes entry_size_def INDEX_ENTRY_V1_size_def)
qed

text \<open>
  C2 fails on the code. On the 64 bytes of \<open>sample_looping_data\<close> the loop of
  \<^verbatim>\<open>_inline_scan\<close> reads the compressed length \<open>-64\<close> and advances by
  \<open>64 + (-64) = 0\<close>: the offset stays 0 and the loop is never left, whatever the fuel.
  The scan neither raises the error for corrupted data nor returns, and the constructor
  \<^verbatim>\<open>InlinedIndexObject\<close> does not return either.
\<close>

theorem inline_scan_never_returns:
  "inline_scan fuel V1 sample_looping_data None = None
   \<and> InlinedIndexObject_init fuel V1 sample_looping_data = None"
  by (simp add: inline_scan_def InlinedIndexObject_init_def sample_looping_loop)


section \<open>Stripping revisions\<close>

lemma entry_data_nodemap_irrelevant:
  "check_index (ix\<lparr>ix_nodemap := x\<rparr>) r = check_index ix r"
  "entry_data (ix\<lparr>ix_nodemap := x\<rparr>) r = entry_data ix r"
  by (simp_all add: check_index_def index_len_def entry_data_def calculate_index_def
      cong: sum.case_cong)

lemma getitem_nodemap_irrelevant [simp]:
  "getitem (ix\<lparr>ix_nodemap := x\<rparr>) r = getitem ix r"
  by (simp add: getitem_def entry_data_nodemap_irrelevant cong: sum.case_cong)

lemma rev_node_nodemap_irrelevant [simp]:
  "rev_node (ix\<lparr>ix_nodemap := x\<rparr>) r = rev_node ix r"
  by (simp add: rev_node_def)

lemma rev_node_Some: "getitem ix r = Inr e \<Longrightarrow> rev_node ix r = Some (node e)"
  by (simp add: rev_node_def)

lemma rev_node_SomeD: "rev_node ix r = Some n \<Longrightarrow> \<exists>e. getitem ix r = Inr e \<and> node e = n"
  by (auto simp: rev_node_def split: sum.splits)

lemma nodemap_loop_dom:
  "nodemap_loop ix rs nm = Inr nm' \<Longrightarrow>
   nm' n \<noteq> None \<longleftrightarrow> nm n \<noteq> None \<or> Some n \<in> rev_node ix ` set rs"
proof (induction rs arbitrary: nm)
  case Nil
  then show ?case by simp
next
  case (Cons r rs)
  from Cons.prems obtain e where e: "getitem ix r = Inr e"
    and l: "nodemap_loop ix rs (nm(node e \<mapsto> r)) = Inr nm'"
    by (auto split: sum.splits)
  from Cons.IH [OF l] rev_node_Some [OF e] show ?case
    by auto
qed

lemma stripnodes_loop_result:
  assumes "\<forall>r \<in> set rs. \<exists>e. getitem ix r = Inr e \<and> nm (node e) \<noteq> None"
    and "distinct (map (rev_node ix) rs)"
  shows "\<exists>nm'. stripnodes_loop ix rs nm = Inr nm'
           \<and> (\<forall>n. nm' n = (if Some n \<in> rev_node ix ` set rs then None else nm n))"
  using assms
proof (induction rs arbitrary: nm)
  case Nil
  then show ?case by simp
next
  case (Cons r rs)
  from Cons.prems(1) obtain e v where e: "getitem ix r = Inr e" and v: "nm (node e) = Some v"
    by auto
  note rn = rev_node_Some [OF e]
  from Cons.prems(2) rn have ni: "Some (node e) \<notin> rev_node ix ` set rs"
    and d: "distinct (map (rev_node ix) rs)"
    by auto
  have "\<forall>r' \<in> set rs. \<exists>e'. getitem ix r' = Inr e' \<and> (nm(node e := None)) (node e') \<noteq> None"
  proof
    fix r' assume r': "r' \<in> set rs"
    with Cons.prems(1) obtain e' where e': "getitem ix r' = Inr e'" "nm (node e') \<noteq> None"
      by auto
    from r' ni rev_node_Some [OF e'(1)] have "node e' \<noteq> node e"
      by (metis image_eqI)
    with e' show "\<exists>e'. getitem ix r' = Inr e' \<and> (nm(node e := None)) (node e') \<noteq> None"
      by simp
  qed
  from Cons.IH [OF this d] obtain nm' where
    l: "stripnodes_loop ix rs (nm(node e := None)) = Inr nm'"
    and c: "\<forall>n. nm' n = (if Some n \<in> rev_node ix ` set rs then None
                          else (nm(node e := None)) n)"
    by blast
  from e v l have "stripnodes_loop ix (r # rs) nm = Inr nm'" by simp
  moreover have "\<forall>n. nm' n = (if Some n \<in> rev_node ix ` set (r # rs) then None else nm n)"
    using c rn by auto
  ultimately show ?case by blast
qed

lemma distinct_py_range: "distinct (py_range a b)"
  by (simp add: py_range_def distinct_map inj_on_def)

lemma rev_node_distinct:
  assumes "entries_decode ix" "nodes_distinct ix" "0 \<le> a"
  shows "distinct (map (rev_node ix) (py_range a (index_len ix)))"
proof -
  have "inj_on (rev_node ix) (set (py_range a (index_len ix)))"
  proof (rule inj_onI)
    fix r s
    assume r: "r \<in> set (py_range a (index_len ix))" and s: "s \<in> set (py_range a (index_len ix))"
      and eq: "rev_node ix r = rev_node ix s"
    from r s assms(3) have b: "0 \<le> r" "r < index_len ix" "0 \<le> s" "s < index_len ix"
      by (simp_all add: set_py_range)
    with assms(1) obtain e f where ef: "getitem ix r = Inr e" "getitem ix s = Inr f"
      unfolding entries_decode_def by blast
    with eq have "node e = node f" by (simp add: rev_node_def)
    with assms(2) b ef show "r = s"
      unfolding nodes_distinct_def by blast
  qed
  with distinct_py_range show ?thesis
    by (simp add: distinct_map)
qed

lemma stripnodes_result:
  assumes v: "nodemap_valid ix" and d: "entries_decode ix" and n: "nodes_distinct ix"
    and i: "0 \<le> i"
  shows "\<exists>x. stripnodes ix i = Inr (ix\<lparr>ix_nodemap := x\<rparr>)
           \<and> (\<forall>nm'. x = Some nm' \<longrightarrow>
                 (\<forall>r e. i \<le> r \<and> r < index_len ix \<and> getitem ix r = Inr e
                    \<longrightarrow> nm' (node e) = None))"
proof (cases "ix_nodemap ix")
  case None
  then have "stripnodes ix i = Inr (ix\<lparr>ix_nodemap := None\<rparr>)"
    by (simp add: stripnodes_def)
  then show ?thesis by blast
next
  case (Some nm)
  with v have c: "compute_nodemap ix = Inr nm"
    by (simp add: nodemap_valid_def)
  let ?rs = "py_range i (index_len ix)"
  have "\<forall>r \<in> set ?rs. \<exists>e. getitem ix r = Inr e \<and> nm (node e) \<noteq> None"
  proof
    fix r assume r: "r \<in> set ?rs"
    with i have b: "0 \<le> r" "r < index_len ix" by (simp_all add: set_py_range)
    with d obtain e where e: "getitem ix r = Inr e"
      unfolding entries_decode_def by blast
    from b have "r \<in> set (py_range 0 (index_len ix))" by (simp add: set_py_range)
    with rev_node_Some [OF e] have "Some (node e) \<in> rev_node ix ` set (py_range 0 (index_len ix))"
      by (metis image_eqI)
    with nodemap_loop_dom [OF c [unfolded compute_nodemap_def], of "node e"]
    have "nm (node e) \<noteq> None" by simp
    with e show "\<exists>e. getitem ix r = Inr e \<and> nm (node e) \<noteq> None" by blast
  qed
  from stripnodes_loop_result [OF this rev_node_distinct [OF d n i]]
  obtain nm' where l: "stripnodes_loop ix ?rs nm = Inr nm'"
    and c': "\<forall>n. nm' n = (if Some n \<in> rev_node ix ` set ?rs then None else nm n)"
    by blast
  from Some l have s: "stripnodes ix i = Inr (ix\<lparr>ix_nodemap := Some nm'\<rparr>)"
    by (simp add: stripnodes_def)
  have "nm' (node e) = None" if "i \<le> r \<and> r < index_len ix \<and> getitem ix r = Inr e" for r e
  proof -
    from that have "r \<in> set ?rs" by (simp add: set_py_range)
    with that rev_node_Some [of ix r e] have "Some (node e) \<in> rev_node ix ` set ?rs"
      by (metis image_eqI)
    with c' show ?thesis by simp
  qed
  then have "\<forall>nm''. Some nm' = Some nm'' \<longrightarrow>
      (\<forall>r e. i \<le> r \<and> r < index_len ix \<and> getitem ix r = Inr e \<longrightarrow> nm'' (node e) = None)"
    by simp
  with s show ?thesis by (intro exI [of _ "Some nm'"] conjI)
qed


lemma stripnodes_shape:
  "stripnodes ix i = Inr ix1 \<Longrightarrow> \<exists>x. ix1 = ix\<lparr>ix_nodemap := x\<rparr>"
proof (cases "ix_nodemap ix")
  case None
  assume "stripnodes ix i = Inr ix1"
  with None have "ix1 = ix\<lparr>ix_nodemap := None\<rparr>"
    by (simp add: stripnodes_def)
  then show ?thesis by blast
next
  case (Some nm)
  assume "stripnodes ix i = Inr ix1"
  with Some show ?thesis
    by (auto simp: stripnodes_def split: sum.splits)
qed

lemma getitem_cong:
  assumes "check_index ix' r = check_index ix r" "entry_data ix' r = entry_data ix r"
    "ix_version ix' = ix_version ix" "(ix_lgt ix' \<noteq> 0 \<and> r = 0) = (ix_lgt ix \<noteq> 0 \<and> r = 0)"
  shows "getitem ix' r = getitem ix r"
  using assms by (simp add: getitem_def cong: sum.case_cong)

lemma getitem_entry_data:
  assumes "getitem ix r = Inr e" "0 \<le> r"
  shows "\<exists>data. entry_data ix r = Inr data"
  using assms by (auto simp: getitem_def split: sum.splits if_splits)

lemma py_index_take:
  assumes "py_index xs r = Inr v" "0 \<le> r" "r < i"
  shows "py_index (take (nat i) xs) r = Inr v"
  using assms by (auto simp: py_index_def split: if_splits)

lemma py_slice_take:
  assumes "0 \<le> a" "a \<le> b" "b \<le> n"
  shows "py_slice (take (nat n) xs) a b = py_slice xs a b"
proof -
  from assms have "min (nat (b - a)) (nat n - nat a) = nat (b - a)" by auto
  with assms show ?thesis
    by (simp add: py_slice_nonneg drop_take)
qed

lemma delitem_retains:
  assumes del: "delitem ix (SliceKey (Some i) (Some (- 1)) None) = Inr ix'"
    and z: "0 \<le> ix_lgt ix"
  shows "0 \<le> i" "i < index_len ix" "index_len ix' = i"
    "\<exists>ix1. stripnodes ix i = Inr ix1 \<and> ix_nodemap ix' = ix_nodemap ix1"
    "0 \<le> r \<Longrightarrow> r < i \<Longrightarrow> getitem ix r = Inr e \<Longrightarrow> getitem ix' r = Inr e"
proof -
  from del obtain ix1 where i: "0 \<le> i" "i < index_len ix"
    and s: "stripnodes ix i = Inr ix1"
    and r: "ix' = (if i < ix_lgt ix1 then
                     (if ix_inlined ix1
                      then ix1\<lparr>ix_offsets := py_slice (ix_offsets ix1) 0 i, ix_lgt := i,
                                ix_extra := []\<rparr>
                      else ix1\<lparr>ix_data := py_slice (ix_data ix1) 0
                                            (i * entry_size (ix_version ix1)),
                                ix_lgt := i, ix_extra := []\<rparr>)
                   else ix1\<lparr>ix_extra := py_slice (ix_extra ix1) 0 (i - ix_lgt ix1)\<rparr>)"
    by (auto simp: delitem_def check_index_def split: sum.splits if_splits)
  from stripnodes_shape [OF s] obtain x where x: "ix1 = ix\<lparr>ix_nodemap := x\<rparr>" by blast
  show "0 \<le> i" "i < index_len ix" by (rule i)+
  from s r show "\<exists>ix1. stripnodes ix i = Inr ix1 \<and> ix_nodemap ix' = ix_nodemap ix1"
    by auto
  have es: "0 < entry_size (ix_version ix)"
    by (simp add: entry_size_def INDEX_ENTRY_V1_size_def INDEX_ENTRY_V2_size_def
        split: version.splits)
  show "index_len ix' = i"
    using i z by (auto simp: r x index_len_def py_slice_nonneg)
  show "getitem ix' r = Inr e" if r0: "0 \<le> r" and ri: "r < i" and g: "getitem ix r = Inr e"
  proof -
    from getitem_entry_data [OF g r0] obtain data where ed: "entry_data ix r = Inr data"
      by blast
    have c: "check_index ix' r = check_index ix r"
      using \<open>index_len ix' = i\<close> r0 ri i by (simp add: check_index_def)
    have v: "ix_version ix' = ix_version ix"
      by (simp add: r x)
    have m: "(ix_lgt ix' \<noteq> 0 \<and> r = 0) = (ix_lgt ix \<noteq> 0 \<and> r = 0)"
      using r0 ri z by (auto simp: r x)
    have "entry_data ix' r = entry_data ix r"
    proof (cases "i < ix_lgt ix")
      case lt: True
      show ?thesis
      proof (cases "ix_inlined ix")
        case True
        with lt ri ed obtain idx where p: "py_index (ix_offsets ix) r = Inr idx"
          by (auto simp: entry_data_def calculate_index_def split: sum.splits if_splits)
        from py_index_take [OF p r0 ri] p lt True ri r0 show ?thesis
          by (simp add: r x entry_data_def calculate_index_def py_slice_nonneg)
      next
        case False
        have "r * entry_size (ix_version ix) + entry_size (ix_version ix)
              \<le> i * entry_size (ix_version ix)"
        proof -
          from ri have "r + 1 \<le> i" by simp
          with es have "(r + 1) * entry_size (ix_version ix) \<le> i * entry_size (ix_version ix)"
            by (simp only: mult_right_mono)
          then show ?thesis by (simp add: algebra_simps)
        qed
        moreover from r0 es have "0 \<le> r * entry_size (ix_version ix)" by simp
        moreover from i es have "0 \<le> i * entry_size (ix_version ix)" by simp
        ultimately have "py_slice (take (nat (i * entry_size (ix_version ix))) (ix_data ix))
              (r * entry_size (ix_version ix))
              (r * entry_size (ix_version ix) + entry_size (ix_version ix))
            = py_slice (ix_data ix) (r * entry_size (ix_version ix))
              (r * entry_size (ix_version ix) + entry_size (ix_version ix))"
          using es by (intro py_slice_take) simp_all
        with lt False ri r0 i es show ?thesis
          by (simp add: r x entry_data_def calculate_index_def py_slice_nonneg)
      qed
    next
      case ge: False
      show ?thesis
      proof (cases "ix_lgt ix \<le> r")
        case True
        with ri i have k: "0 \<le> r - ix_lgt ix" "r - ix_lgt ix < i - ix_lgt ix"
          "i - ix_lgt ix < int (length (ix_extra ix))"
          by (simp_all add: index_len_def)
        then have "py_index (take (nat (i - ix_lgt ix)) (ix_extra ix)) (r - ix_lgt ix)
            = py_index (ix_extra ix) (r - ix_lgt ix)"
          by (simp add: py_index_def)
        with ge True k show ?thesis
          by (simp add: r x entry_data_def py_slice_nonneg)
      next
        case False
        with ge show ?thesis
          by (simp add: r x entry_data_def calculate_index_def cong: sum.case_cong)
      qed
    qed
    from getitem_cong [OF c this v m] g show ?thesis by simp
  qed
qed


lemma removed_node_unknown:
  assumes z: "0 \<le> ix_lgt ix" and v: "nodemap_valid ix" and d: "entries_decode ix"
    and n: "nodes_distinct ix" and nn: "no_null_node ix"
    and del: "delitem ix (SliceKey (Some i) (Some (- 1)) None) = Inr ix'"
    and r: "i \<le> r" "r < index_len ix" and e: "getitem ix r = Inr e"
  shows "\<exists>nm ix''. get_nodemap ix' = Inr (nm, ix'') \<and> nm (node e) = None"
proof -
  note t = delitem_retains [OF del z]
  from stripnodes_result [OF v d n t(1)] obtain x where
    s: "stripnodes ix i = Inr (ix\<lparr>ix_nodemap := x\<rparr>)"
    and c: "\<forall>nm'. x = Some nm' \<longrightarrow>
              (\<forall>r e. i \<le> r \<and> r < index_len ix \<and> getitem ix r = Inr e
                 \<longrightarrow> nm' (node e) = None)"
    by blast
  from t(4) s have x: "ix_nodemap ix' = x" by auto
  show ?thesis
  proof (cases x)
    case (Some nm')
    with c r e have "nm' (node e) = None" by blast
    moreover from x Some have "get_nodemap ix' = Inr (nm', ix')"
      by (simp add: get_nodemap_def)
    ultimately show ?thesis by blast
  next
    case None
    have k: "getitem ix' s = getitem ix s \<and> (\<exists>f. getitem ix s = Inr f)"
      if "0 \<le> s" "s < i" for s
    proof -
      from that t(2) d obtain f where f: "getitem ix s = Inr f"
        unfolding entries_decode_def by (meson less_trans)
      from t(5) [OF that f] f show ?thesis by simp
    qed
    have "entries_decode ix'"
      unfolding entries_decode_def t(3) using k by auto
    from compute_nodemap_total [OF this] obtain nm where nm: "compute_nodemap ix' = Inr nm"
      by blast
    have "nm (node e) = [nullid \<mapsto> nullrev] (node e)"
      using nm unfolding compute_nodemap_def
    proof (rule nodemap_loop_other)
      show "\<forall>s \<in> set (py_range 0 (index_len ix')). \<forall>f. getitem ix' s = Inr f
              \<longrightarrow> node f \<noteq> node e"
      proof (intro ballI allI impI)
        fix s f assume s: "s \<in> set (py_range 0 (index_len ix'))" and f: "getitem ix' s = Inr f"
        from s have b: "0 \<le> s" "s < i" by (simp_all add: set_py_range t(3))
        with k f have f': "getitem ix s = Inr f" by simp
        show "node f \<noteq> node e"
        proof
          assume "node f = node e"
          moreover from b r t(1,2) have "s < index_len ix" "0 \<le> r" by simp_all
          ultimately have "s = r"
            using n [unfolded nodes_distinct_def, rule_format, of s r f e] b r f' e by simp
          with b r show False by simp
        qed
      qed
    qed
    moreover from nn r t(1) e have "node e \<noteq> nullid"
      unfolding no_null_node_def by (meson order_trans)
    ultimately have "nm (node e) = None" by simp
    moreover from x None nm have "get_nodemap ix' = Inr (nm, ix'\<lparr>ix_nodemap := Some nm\<rparr>)"
      by (simp add: get_nodemap_def)
    ultimately show ?thesis by blast
  qed
qed

lemma delitem_returns:
  assumes v: "nodemap_valid ix" and d: "entries_decode ix" and n: "nodes_distinct ix"
    and i: "0 \<le> i" "i < index_len ix"
  shows "\<exists>ix'. delitem ix (SliceKey (Some i) (Some (- 1)) None) = Inr ix'"
proof -
  from stripnodes_result [OF v d n i(1)] obtain x where
    "stripnodes ix i = Inr (ix\<lparr>ix_nodemap := x\<rparr>)" by blast
  with i show ?thesis
    by (simp add: delitem_def check_index_def)
qed

text \<open>
  C8, as amended. Take an index of length \<open>N\<close> whose entries all decode, whose nodes are
  pairwise distinct and never the null node, and whose node map cache, if filled, is the
  computed map, and a revision \<open>i\<close> with \<open>0 \<le> i < N\<close>. Deleting the slice
  \<^verbatim>\<open>[i:-1]\<close> returns; the resulting length is \<open>i\<close>; the entries of the revisions
  below \<open>i\<close> read as before; and the node of each revision from \<open>i\<close> on no longer
  resolves: \<^verbatim>\<open>has_node\<close> gives false, \<^verbatim>\<open>get_rev\<close> gives \<^verbatim>\<open>None\<close> and
  \<^verbatim>\<open>rev\<close> raises a RevlogError. On every index, deleting with a key that is not a
  slice, or with a slice whose stop is not \<open>-1\<close> or whose step is given, raises a
  ValueError.
\<close>

theorem delitem_strips_revisions:
  "(0 \<le> ix_lgt ix \<and> nodemap_valid ix \<and> entries_decode ix \<and> nodes_distinct ix
      \<and> no_null_node ix \<and> 0 \<le> i \<and> i < index_len ix \<longrightarrow>
      (\<exists>ix'. delitem ix (SliceKey (Some i) (Some (- 1)) None) = Inr ix'
         \<and> index_len ix' = i
         \<and> (\<forall>r e. 0 \<le> r \<and> r < i \<and> getitem ix r = Inr e \<longrightarrow> getitem ix' r = Inr e)
         \<and> (\<forall>r e. i \<le> r \<and> r < index_len ix \<and> getitem ix r = Inr e \<longrightarrow>
               (\<exists>ix''. has_node ix' (node e) = Inr (False, ix'')
                      \<and> get_rev ix' (node e) = Inr (None, ix''))
               \<and> rev_of ix' (node e) = Inl RevlogError)))
   \<and> (stop \<noteq> Some (- 1) \<or> step \<noteq> None \<longrightarrow>
        delitem ix (SliceKey start stop step) = Inl ValueError)
   \<and> delitem ix (IntKey k) = Inl ValueError"
proof (intro conjI impI)
  assume a: "0 \<le> ix_lgt ix \<and> nodemap_valid ix \<and> entries_decode ix \<and> nodes_distinct ix
      \<and> no_null_node ix \<and> 0 \<le> i \<and> i < index_len ix"
  then have z: "0 \<le> ix_lgt ix" and v: "nodemap_valid ix" and d: "entries_decode ix"
    and n: "nodes_distinct ix" and nn: "no_null_node ix" and i: "0 \<le> i" "i < index_len ix"
    by simp_all
  from delitem_returns [OF v d n i] obtain ix' where
    del: "delitem ix (SliceKey (Some i) (Some (- 1)) None) = Inr ix'" by blast
  note t = delitem_retains [OF del z]
  have u: "(\<exists>ix''. has_node ix' (node e) = Inr (False, ix'')
                      \<and> get_rev ix' (node e) = Inr (None, ix''))
               \<and> rev_of ix' (node e) = Inl RevlogError"
    if "i \<le> r \<and> r < index_len ix \<and> getitem ix r = Inr e" for r e
  proof -
    from that have r: "i \<le> r" "r < index_len ix" and e: "getitem ix r = Inr e" by simp_all
    from removed_node_unknown [OF z v d n nn del r e] obtain nm ix''
      where "get_nodemap ix' = Inr (nm, ix'')" "nm (node e) = None" by blast
    then show ?thesis
      by (simp add: has_node_def get_rev_def rev_of_def)
  qed
  have w: "getitem ix' r = Inr e" if "0 \<le> r \<and> r < i \<and> getitem ix r = Inr e" for r e
    using that t(5) by blast
  show "\<exists>ix'. delitem ix (SliceKey (Some i) (Some (- 1)) None) = Inr ix'
         \<and> index_len ix' = i
         \<and> (\<forall>r e. 0 \<le> r \<and> r < i \<and> getitem ix r = Inr e \<longrightarrow> getitem ix' r = Inr e)
         \<and> (\<forall>r e. i \<le> r \<and> r < index_len ix \<and> getitem ix r = Inr e \<longrightarrow>
               (\<exists>ix''. has_node ix' (node e) = Inr (False, ix'')
                      \<and> get_rev ix' (node e) = Inr (None, ix''))
               \<and> rev_of ix' (node e) = Inl RevlogError)"
  proof (rule exI [of _ ix'], intro conjI)
    show "delitem ix (SliceKey (Some i) (Some (- 1)) None) = Inr ix'" by (rule del)
    show "index_len ix' = i" by (rule t(3))
    show "\<forall>r e. 0 \<le> r \<and> r < i \<and> getitem ix r = Inr e \<longrightarrow> getitem ix' r = Inr e"
      using w by blast
    show "\<forall>r e. i \<le> r \<and> r < index_len ix \<and> getitem ix r = Inr e \<longrightarrow>
               (\<exists>ix''. has_node ix' (node e) = Inr (False, ix'')
                      \<and> get_rev ix' (node e) = Inr (None, ix''))
               \<and> rev_of ix' (node e) = Inl RevlogError"
      using u by blast
  qed
next
  assume "stop \<noteq> Some (- 1) \<or> step \<noteq> None"
  then show "delitem ix (SliceKey start stop step) = Inl ValueError"
    by (auto simp: delitem_def)
next
  show "delitem ix (IntKey k) = Inl ValueError"
    by (simp add: delitem_def)
qed

theorem delitem_strips_revisions_witness:
  "(\<exists>ix'. delitem sample_index (SliceKey (Some 1) (Some (- 1)) None) = Inr ix'
      \<and> index_len ix' = 1
      \<and> getitem ix' 0 = Inr sample_entry0
      \<and> (\<exists>ix''. has_node ix' (node sample_entry1) = Inr (False, ix''))
      \<and> rev_of ix' (node sample_entry1) = Inl RevlogError)
   \<and> delitem sample_index (SliceKey (Some 1) (Some 0) None) = Inl ValueError"
proof -
  have h: "0 \<le> ix_lgt sample_index \<and> nodemap_valid sample_index \<and> entries_decode sample_index
      \<and> nodes_distinct sample_index \<and> no_null_node sample_index
      \<and> (0::int) \<le> 1 \<and> 1 < index_len sample_index"
    using sample_index_wf by (simp add: sample_index_def index_len_def)
  have g: "(0::int) \<le> 0 \<and> (0::int) < 1 \<and> getitem sample_index 0 = Inr sample_entry0"
    "(1::int) \<le> 1 \<and> 1 < index_len sample_index \<and> getitem sample_index 1 = Inr sample_entry1"
    using sample_index_entries by (simp_all add: sample_index_def index_len_def)
  have s: "Some (0::int) \<noteq> Some (- 1) \<or> Some (1::int) \<noteq> None" by simp
  from delitem_strips_revisions [of sample_index 1 "Some 0" None "Some 1" 0] h
  obtain ix' where
    a: "delitem sample_index (SliceKey (Some 1) (Some (- 1)) None) = Inr ix'"
      "index_len ix' = 1"
    and b: "\<forall>r e. 0 \<le> r \<and> r < 1 \<and> getitem sample_index r = Inr e \<longrightarrow> getitem ix' r = Inr e"
    and c: "\<forall>r e. 1 \<le> r \<and> r < index_len sample_index \<and> getitem sample_index r = Inr e \<longrightarrow>
               (\<exists>ix''. has_node ix' (node e) = Inr (False, ix'')
                      \<and> get_rev ix' (node e) = Inr (None, ix''))
               \<and> rev_of ix' (node e) = Inl RevlogError"
    and e: "delitem sample_index (SliceKey (Some 1) (Some 0) None) = Inl ValueError"
    by auto
  from b g(1) have "getitem ix' 0 = Inr sample_entry0" by blast
  moreover from c g(2) have "(\<exists>ix''. has_node ix' (node sample_entry1) = Inr (False, ix''))
      \<and> rev_of ix' (node sample_entry1) = Inl RevlogError" by blast
  ultimately show ?thesis using a e by blast
qed

text \<open>
  The claim as stated fails on an index in which two revisions have the same node:
  after the second one is deleted, the node map computed from what is left still knows
  the node, through the first.
\<close>

theorem delitem_duplicate_node_counterexample:
  "IndexObject_init V1 (sample_record1 @ sample_record1) = Inr sample_dup_index
   \<and> getitem sample_dup_index 1 = Inr sample_entry1
   \<and> delitem sample_dup_index (SliceKey (Some 1) (Some (- 1)) None) = Inr sample_dup_stripped
   \<and> map_sum id fst (has_node sample_dup_stripped (node sample_entry1)) = Inr True"
proof -
  have i: "IndexObject_init V1 (sample_record1 @ sample_record1) = Inr sample_dup_index"
    by (simp add: IndexObject_init_def sample_record_lengths entry_size_def
        INDEX_ENTRY_V1_size_def sample_dup_index_def)
  have s1: "py_slice (sample_record1 @ sample_record1) 64 128 = sample_record1"
    "py_slice (sample_record1 @ sample_record1) 0 64 = sample_record1"
    "py_slice sample_record1 0 64 = sample_record1"
    by (simp_all add: py_slice_def sample_record_lengths)
  have g: "getitem sample_dup_index 1 = Inr sample_entry1"
    by (simp add: getitem_def check_index_def index_len_def entry_data_def calculate_index_def
        entry_size_def INDEX_ENTRY_V1_size_def sample_dup_index_def s1 sample_unpack1)
  have d: "delitem sample_dup_index (SliceKey (Some 1) (Some (- 1)) None)
      = Inr sample_dup_stripped"
    by (simp add: delitem_def check_index_def index_len_def stripnodes_def entry_size_def
        INDEX_ENTRY_V1_size_def sample_dup_index_def sample_dup_stripped_def s1)
  have g0: "getitem sample_dup_stripped 0 = Inr (sample_entry1\<lparr>offset_flags := 0\<rparr>)"
    by (simp add: getitem_def check_index_def index_len_def entry_data_def calculate_index_def
        entry_size_def INDEX_ENTRY_V1_size_def sample_dup_stripped_def s1 sample_unpack1
        mask_offset_flags(3))
      (simp add: sample_entry1_def)
  have l: "index_len sample_dup_stripped = 1" "ix_nodemap sample_dup_stripped = None"
    by (simp_all add: index_len_def sample_dup_stripped_def)
  have "compute_nodemap sample_dup_stripped
      = Inr [nullid \<mapsto> nullrev, node sample_entry1 \<mapsto> 0]"
    by (simp add: compute_nodemap_def py_range_def l g0)
  then have "map_sum id fst (has_node sample_dup_stripped (node sample_entry1)) = Inr True"
    by (simp add: has_node_def get_nodemap_def l)
  with i g d show ?thesis by simp
qed


section \<open>Indexes built from bytes are well formed\<close>

lemma unpack_entry_total:
  "int (length data) = entry_size v \<Longrightarrow> \<exists>e. unpack_entry v data = Inr e"
  by (cases v)
    (simp_all add: unpack_entry_def unpack_entry_v1_def unpack_entry_v2_def entry_size_def
      INDEX_ENTRY_V1_unpack_def INDEX_ENTRY_V2_unpack_def Let_def)

lemma entry_size_pos: "0 < entry_size v"
  by (cases v) (simp_all add: entry_size_def INDEX_ENTRY_V1_size_def INDEX_ENTRY_V2_size_def)

lemma py_slice_length:
  assumes "0 \<le> a" "a \<le> b" "b \<le> int (length xs)"
  shows "int (length (py_slice xs a b)) = b - a"
  using assms by (simp add: py_slice_nonneg)

text \<open>
  An index that \<^verbatim>\<open>IndexObject\<close> builds from bytes has their length divided by the
  entry size as its length, every revision of it decodes, and its node map cache is
  empty.
\<close>

lemma IndexObject_init_well_formed:
  assumes "IndexObject_init v data = Inr ix"
  shows "0 \<le> ix_lgt ix" "index_len ix = int (length data) div entry_size v"
    "nodemap_valid ix" "entries_decode ix"
proof -
  note es = entry_size_pos [of v]
  from assms have m: "int (length data) mod entry_size v = 0"
    and ix: "ix = \<lparr> ix_version = v, ix_inlined = False, ix_data = data,
                 ix_lgt = int (length data) div entry_size v, ix_extra = [],
                 ix_offsets = [], ix_nodemap = None \<rparr>"
    by (auto simp: IndexObject_init_def split: if_splits)
  from es show "0 \<le> ix_lgt ix"
    by (simp add: ix pos_imp_zdiv_nonneg_iff)
  show l: "index_len ix = int (length data) div entry_size v"
    by (simp add: ix index_len_def)
  show "nodemap_valid ix"
    by (simp add: ix nodemap_valid_def)
  from m have d: "int (length data) = (int (length data) div entry_size v) * entry_size v"
    by (simp add: mod_eq_0_iff_dvd)
  show "entries_decode ix"
    unfolding entries_decode_def
  proof (intro allI impI)
    fix r assume r: "0 \<le> r \<and> r < index_len ix"
    then have "r + 1 \<le> int (length data) div entry_size v" by (simp add: l)
    with es have "(r + 1) * entry_size v \<le> (int (length data) div entry_size v) * entry_size v"
      by (simp only: mult_right_mono)
    with d have b: "r * entry_size v + entry_size v \<le> int (length data)"
      by (simp add: algebra_simps)
    from r es have a: "0 \<le> r * entry_size v" by simp
    from es have "r * entry_size v \<le> r * entry_size v + entry_size v" by simp
    from py_slice_length [OF a this b]
    have "int (length (py_slice data (r * entry_size v) (r * entry_size v + entry_size v)))
        = entry_size v" by simp
    from unpack_entry_total [OF this] obtain e where
      u: "unpack_entry v (py_slice data (r * entry_size v) (r * entry_size v + entry_size v))
          = Inr e" by blast
    from r l have "entry_data ix r
        = Inr (py_slice data (r * entry_size v) (r * entry_size v + entry_size v))"
      by (simp add: ix entry_data_def calculate_index_def index_len_def)
    with r u show "\<exists>e. getitem ix r = Inr e"
      by (auto simp: getitem_def check_index_def ix)
  qed
qed



text \<open>
  The loop of the inline scan is left, with a result or an error, as soon as the fuel
  exceeds the bytes that remain, provided that no length read inside the data is
  negative: each round then advances by the entry size at least.
\<close>

lemma inline_scan_loop_returns:
  assumes "\<forall>off s. 0 \<le> off \<and> inline_scan_sizes v data off = Inr s \<longrightarrow> 0 \<le> s"
    and "0 \<le> off" "int (length data) - off < int fuel" "0 < fuel"
  shows "inline_scan_loop fuel v data offsets off count \<noteq> None"
  using assms(2,3,4)
proof (induction fuel arbitrary: off count offsets)
  case 0
  then show ?case by simp
next
  case (Suc fuel)
  note es = entry_size_pos [of v]
  show ?case
  proof (cases "off \<le> int (length data) - entry_size v")
    case False
    then show ?thesis by simp
  next
    case True
    show ?thesis
    proof (cases "inline_scan_sizes v data off")
      case (Inl err)
      with True show ?thesis by simp
    next
      case (Inr s)
      with assms(1) Suc.prems(1) have s: "0 \<le> s" by blast
      from Suc.prems(2) have "int (length data) - off < int fuel + 1" by simp
      with s es Suc.prems(1) True have n: "0 \<le> off + (entry_size v + s)"
        "int (length data) - (off + (entry_size v + s)) < int fuel" "0 < fuel"
        by linarith+
      show ?thesis
      proof (cases offsets)
        case None
        with True Inr Suc.IH [OF n] show ?thesis by simp
      next
        case (Some os)
        with True Inr Suc.IH [OF n] show ?thesis
          by (cases "py_setitem os count off") simp_all
      qed
    qed
  qed
qed

lemma inline_scan_returns:
  assumes "\<forall>off s. 0 \<le> off \<and> inline_scan_sizes v data off = Inr s \<longrightarrow> 0 \<le> s"
  shows "inline_scan (Suc (length data)) v data lgt \<noteq> None"
  unfolding inline_scan_def
  by (rule inline_scan_loop_returns [OF assms]) simp_all






section \<open>Appending keeps an index well formed\<close>

lemma pack_entry_unpack_node:
  assumes "pack_entry v tup = Inr data" "length (node tup) = 20"
  shows "\<exists>e. unpack_entry v data = Inr e \<and> node e = node tup"
proof (cases v)
  case V1
  with assms(1) have "INDEX_ENTRY_V1_pack (offset_flags tup, comp_len tup, uncomp_len tup,
      base_rev tup, link_rev tup, p1_rev tup, p2_rev tup, node tup) = Inr data"
    by (auto simp: pack_entry_def pack_entry_v1_def split: if_splits)
  from V1_roundtrip [OF this] V1 assms(2) show ?thesis
    by (simp add: unpack_entry_def unpack_entry_v1_def pack_s_exact)
next
  case V2
  with assms(1) obtain b where "INDEX_ENTRY_V2_pack (offset_flags tup, comp_len tup,
      uncomp_len tup, base_rev tup, link_rev tup, p1_rev tup, p2_rev tup, node tup,
      sidedata_offset tup, sidedata_length tup, b) = Inr data"
    by (auto simp: pack_entry_def pack_entry_v2_def Let_def)
  from V2_roundtrip [OF this] V2 assms(2) show ?thesis
    by (simp add: unpack_entry_def unpack_entry_v2_def pack_s_exact Let_def)
qed

lemma nodemap_loop_append:
  "nodemap_loop ix (xs @ ys) nm =
     (case nodemap_loop ix xs nm of Inl err \<Rightarrow> Inl err | Inr nm1 \<Rightarrow> nodemap_loop ix ys nm1)"
  by (induction xs arbitrary: nm) (auto split: sum.splits)

lemma nodemap_loop_cong:
  "(\<forall>r \<in> set rs. getitem ix' r = getitem ix r) \<Longrightarrow>
   nodemap_loop ix' rs nm = nodemap_loop ix rs nm"
  by (induction rs arbitrary: nm) (auto split: sum.splits)

lemma py_range_Suc:
  "0 \<le> n \<Longrightarrow> py_range 0 (n + 1) = py_range 0 n @ [n]"
proof -
  assume n: "0 \<le> n"
  then have "nat (n + 1) = Suc (nat n)" by simp
  with n show ?thesis by (simp add: py_range_def)
qed

text \<open>
  \<^verbatim>\<open>append\<close> of an entry with a 20-byte node, when it returns, adds one revision
  whose node is that of the entry, leaves the other revisions as they were, and keeps
  the index decodable and its node map cache in step with the entries. When the node is
  new and not the null node, the nodes stay distinct and non-null.
\<close>

lemma index_append_well_formed:
  assumes ap: "index_append ix tup = Inr ix'" and z: "0 \<le> ix_lgt ix"
    and nl: "length (node tup) = 20"
    and v: "nodemap_valid ix" and d: "entries_decode ix"
  shows "index_len ix' = index_len ix + 1" "ix_lgt ix' = ix_lgt ix"
    "0 \<le> r \<and> r < index_len ix \<longrightarrow> getitem ix' r = getitem ix r"
    "rev_node ix' (index_len ix) = Some (node tup)"
    "entries_decode ix'" "nodemap_valid ix'"
proof -
  from ap obtain data where p: "pack_entry (ix_version ix) tup = Inr data"
    and ix': "ix' = ix\<lparr>ix_nodemap := (case ix_nodemap ix of None \<Rightarrow> None
                        | Some nm \<Rightarrow> Some (nm(node tup \<mapsto> index_len ix))),
                     ix_extra := ix_extra ix @ [data]\<rparr>"
    by (auto simp: index_append_def Let_def split: sum.splits)
  show l: "index_len ix' = index_len ix + 1" and lg: "ix_lgt ix' = ix_lgt ix"
    by (simp_all add: ix' index_len_def)
  from z have n0: "0 \<le> index_len ix" by (simp add: index_len_def)
  have old: "getitem ix' r = getitem ix r" if r: "0 \<le> r" "r < index_len ix" for r
  proof (rule getitem_cong)
    show "check_index ix' r = check_index ix r"
      using r by (simp add: check_index_def l)
    show "ix_version ix' = ix_version ix" by (simp add: ix')
    show "(ix_lgt ix' \<noteq> 0 \<and> r = 0) = (ix_lgt ix \<noteq> 0 \<and> r = 0)" by (simp add: lg)
    show "entry_data ix' r = entry_data ix r"
    proof (cases "ix_lgt ix \<le> r")
      case True
      with r have k: "0 \<le> r - ix_lgt ix" "r - ix_lgt ix < int (length (ix_extra ix))"
        by (simp_all add: index_len_def)
      then have "nat (r - ix_lgt ix) < length (ix_extra ix)" by linarith
      with True k show ?thesis
        by (simp add: ix' entry_data_def py_index_def nth_append)
    next
      case False
      then show ?thesis
        by (simp add: ix' entry_data_def calculate_index_def cong: sum.case_cong)
    qed
  qed
  then show "0 \<le> r \<and> r < index_len ix \<longrightarrow> getitem ix' r = getitem ix r" by simp
  from pack_entry_unpack_node [OF p nl] obtain e where
    e: "unpack_entry (ix_version ix) data = Inr e" "node e = node tup" by blast
  have "getitem ix' (index_len ix)
      = unpack_entry (ix_version ix') (ix_extra ix' ! nat (index_len ix - ix_lgt ix'))"
    using getitem_extra [of ix' "index_len ix"] z l lg by (simp add: index_len_def)
  also have "\<dots> = unpack_entry (ix_version ix) data"
    by (simp add: ix' index_len_def)
  finally have new: "\<exists>e. getitem ix' (index_len ix) = Inr e \<and> node e = node tup"
    using e by (cases "ix_lgt ix \<noteq> 0 \<and> index_len ix = 0") auto
  then show rn: "rev_node ix' (index_len ix) = Some (node tup)"
    by (auto simp: rev_node_def)
  show "entries_decode ix'"
    unfolding entries_decode_def l
  proof (intro allI impI)
    fix r assume "0 \<le> r \<and> r < index_len ix + 1"
    then consider "0 \<le> r \<and> r < index_len ix" | "r = index_len ix" by linarith
    then show "\<exists>e. getitem ix' r = Inr e"
    proof cases
      case 1
      with d old show ?thesis unfolding entries_decode_def by simp
    next
      case 2
      with new show ?thesis by blast
    qed
  qed
  show "nodemap_valid ix'"
  proof (cases "ix_nodemap ix")
    case None
    then show ?thesis by (simp add: nodemap_valid_def ix')
  next
    case (Some nm)
    with v have c: "nodemap_loop ix (py_range 0 (index_len ix)) [nullid \<mapsto> nullrev] = Inr nm"
      by (simp add: nodemap_valid_def compute_nodemap_def)
    have "nodemap_loop ix' (py_range 0 (index_len ix)) [nullid \<mapsto> nullrev]
        = nodemap_loop ix (py_range 0 (index_len ix)) [nullid \<mapsto> nullrev]"
      by (rule nodemap_loop_cong) (simp add: set_py_range old)
    with c new have "compute_nodemap ix' = Inr (nm(node tup \<mapsto> index_len ix))"
      by (auto simp: compute_nodemap_def l py_range_Suc [OF n0] nodemap_loop_append)
    with Some show ?thesis
      by (simp add: nodemap_valid_def ix')
  qed
qed

lemma index_append_distinct:
  assumes ap: "index_append ix tup = Inr ix'" and z: "0 \<le> ix_lgt ix"
    and nl: "length (node tup) = 20"
    and v: "nodemap_valid ix" and d: "entries_decode ix"
    and n: "nodes_distinct ix" and nn: "no_null_node ix"
    and fresh: "node tup \<noteq> nullid"
      "\<forall>r e. 0 \<le> r \<and> r < index_len ix \<and> getitem ix r = Inr e \<longrightarrow> node e \<noteq> node tup"
  shows "nodes_distinct ix'" "no_null_node ix'"
proof -
  note t = index_append_well_formed [OF ap z nl v d]
  have k: "(0 \<le> r \<and> r < index_len ix \<and> getitem ix r = Inr e)
      \<or> (r = index_len ix \<and> node e = node tup)"
    if "0 \<le> r \<and> r < index_len ix' \<and> getitem ix' r = Inr e" for r e
  proof (cases "r = index_len ix")
    case True
    with that t(4) show ?thesis by (simp add: rev_node_def)
  next
    case False
    with that t(1) have "0 \<le> r \<and> r < index_len ix" by simp
    with that t(3) [of r] show ?thesis by simp
  qed
  show "no_null_node ix'"
    unfolding no_null_node_def
  proof (intro allI impI)
    fix r e assume "0 \<le> r \<and> r < index_len ix' \<and> getitem ix' r = Inr e"
    from k [OF this] nn fresh(1) show "node e \<noteq> nullid"
      unfolding no_null_node_def by auto
  qed
  show "nodes_distinct ix'"
    unfolding nodes_distinct_def
  proof (intro allI impI)
    fix r s e f
    assume a: "0 \<le> r \<and> r < index_len ix' \<and> 0 \<le> s \<and> s < index_len ix'
        \<and> getitem ix' r = Inr e \<and> getitem ix' s = Inr f \<and> node e = node f"
    then have "0 \<le> r \<and> r < index_len ix' \<and> getitem ix' r = Inr e"
      "0 \<le> s \<and> s < index_len ix' \<and> getitem ix' s = Inr f" by simp_all
    from k [OF this(1)] k [OF this(2)] have
      "(0 \<le> r \<and> r < index_len ix \<and> getitem ix r = Inr e
          \<and> 0 \<le> s \<and> s < index_len ix \<and> getitem ix s = Inr f)
       \<or> (0 \<le> r \<and> r < index_len ix \<and> getitem ix r = Inr e \<and> node f = node tup)
       \<or> (0 \<le> s \<and> s < index_len ix \<and> getitem ix s = Inr f \<and> node e = node tup)
       \<or> (r = index_len ix \<and> s = index_len ix)"
      by blast
    then show "r = s"
    proof (elim disjE)
      assume "0 \<le> r \<and> r < index_len ix \<and> getitem ix r = Inr e
          \<and> 0 \<le> s \<and> s < index_len ix \<and> getitem ix s = Inr f"
      with a show ?thesis
        using n [unfolded nodes_distinct_def, rule_format, of r s e f] by simp
    next
      assume "0 \<le> r \<and> r < index_len ix \<and> getitem ix r = Inr e \<and> node f = node tup"
      with a fresh(2) [rule_format, of r e] show ?thesis by simp
    next
      assume "0 \<le> s \<and> s < index_len ix \<and> getitem ix s = Inr f \<and> node e = node tup"
      with a fresh(2) [rule_format, of s f] show ?thesis by simp
    next
      assume "r = index_len ix \<and> s = index_len ix"
      then show ?thesis by simp
    qed
  qed
qed


section \<open>The entries of an index built from bytes\<close>











end
